theory Spec2Isabelle
  imports Main
begin

section \<open>Python values used by \<open>server.py\<close>\<close>

text \<open>
  The supervisor in \<open>server.py\<close> keeps five module-level variables (the worker's process
  handle, two history lists and two lists of subscriber queues), reads the worker's output
  line by line in \<open>_reader_thread\<close>, and serves the two histories and the live items to
  streaming clients. This theory embeds that code and states the properties of the
  specification over it.

  Strings are lists of characters; a character stands for a code point below 256. Every
  exception the code can meet is a value of \<open>py_error\<close>.
\<close>

datatype py_error = IndexError | ValueError | QueueFull

subsection \<open>\<open>str.rstrip()\<close>, \<open>str.strip()\<close>\<close>

text \<open>
  With no argument both strip the characters for which \<open>str.isspace\<close> holds. Below code
  point 256 these are TAB, LF, VT, FF, CR, the separators 0x1C to 0x1F, the space, NEL
  (0x85) and the no-break space (0xA0).
\<close>

definition whitespace :: "char list" where
  "whitespace =
     [CHR 0x09, CHR 0x0A, CHR 0x0B, CHR 0x0C, CHR 0x0D, CHR 0x1C, CHR 0x1D, CHR 0x1E,
      CHR 0x1F, CHR 0x20, CHR 0x85, CHR 0xA0]"

definition isspace :: "char \<Rightarrow> bool" where
  "isspace c = (c \<in> set whitespace)"

definition lstrip :: "string \<Rightarrow> string" where
  "lstrip s = dropWhile isspace s"

definition rstrip :: "string \<Rightarrow> string" where
  "rstrip s = rev (dropWhile isspace (rev s))"

definition strip :: "string \<Rightarrow> string" where
  "strip s = lstrip (rstrip s)"

subsection \<open>\<open>sub in s\<close>, \<open>s.split(sep, 1)\<close>, indexing\<close>

fun startswith :: "string \<Rightarrow> string \<Rightarrow> bool" where
  "startswith s [] = True"
| "startswith [] (p # ps) = False"
| "startswith (c # cs) (p # ps) = (c = p \<and> startswith cs ps)"

text \<open>\<open>s.find(sub)\<close>: the index of the leftmost occurrence, \<open>None\<close> for Python's -1.\<close>

fun find_str :: "string \<Rightarrow> string \<Rightarrow> nat option" where
  "find_str sub [] = (if sub = [] then Some 0 else None)"
| "find_str sub (c # cs) =
     (if startswith (c # cs) sub then Some 0 else map_option Suc (find_str sub cs))"

definition py_in :: "string \<Rightarrow> string \<Rightarrow> bool" where
  "py_in sub s = (find_str sub s \<noteq> None)"

text \<open>
  \<open>s.split(sep, 1)\<close> cuts at most once, at the leftmost occurrence of \<open>sep\<close>; an empty
  separator raises \<open>ValueError\<close>.
\<close>

definition split1 :: "string \<Rightarrow> string \<Rightarrow> py_error + string list" where
  "split1 sep s =
     (if sep = [] then Inl ValueError
      else case find_str sep s of
             None \<Rightarrow> Inr [s]
           | Some i \<Rightarrow> Inr [take i s, drop (i + length sep) s])"

definition getitem :: "'a list \<Rightarrow> nat \<Rightarrow> py_error + 'a" where
  "getitem xs i = (if i < length xs then Inr (xs ! i) else Inl IndexError)"

text \<open>\<open>line.split(marker, 1)[1]\<close>\<close>

definition split_after :: "string \<Rightarrow> string \<Rightarrow> py_error + string" where
  "split_after marker line =
     (case split1 marker line of Inl e \<Rightarrow> Inl e | Inr parts \<Rightarrow> getitem parts 1)"

text \<open>\<open>xs[-n:]\<close> for a positive \<open>n\<close>: the last \<open>n\<close> elements, all of them when there are fewer.\<close>

definition last_n :: "nat \<Rightarrow> 'a list \<Rightarrow> 'a list" where
  "last_n n xs = drop (length xs - n) xs"

subsection \<open>Events and stream frames\<close>

text \<open>
  An event is the dict the code builds, with string keys and string values, in insertion
  order; \<open>ev.get(k)\<close> is \<open>map_of ev k\<close>.
\<close>

type_synonym event = "(string \<times> string) list"

definition transcript_event :: "string \<Rightarrow> string \<Rightarrow> event" where
  "transcript_event role text =
     [(''type'', ''transcript''), (''role'', role), (''text'', text)]"

definition state_event :: "string \<Rightarrow> event" where
  "state_event st = [(''type'', ''state''), (''state'', st)]"

definition is_stopped :: "event \<Rightarrow> bool" where
  "is_stopped ev = (map_of ev ''type'' = Some ''state'' \<and> map_of ev ''state'' = Some ''stopped'')"

text \<open>
  What a generator yields: \<open>SseData l\<close> is the text \<open>data: l\<close> followed by an empty line,
  \<open>SseJson ev\<close> the same with \<open>json.dumps(ev)\<close>, \<open>SsePing\<close> the comment line \<open>: ping\<close>.
\<close>

datatype frame = SseData string | SseJson event | SsePing

subsection \<open>\<open>asyncio.Queue\<close>\<close>

record 'a aqueue =
  maxsize :: nat
  items :: "'a list"

definition new_queue :: "nat \<Rightarrow> 'a aqueue" where
  "new_queue n = \<lparr>maxsize = n, items = []\<rparr>"

definition full :: "'a aqueue \<Rightarrow> bool" where
  "full q = (0 < maxsize q \<and> maxsize q \<le> length (items q))"

definition put_nowait :: "'a \<Rightarrow> 'a aqueue \<Rightarrow> py_error + 'a aqueue" where
  "put_nowait x q = (if full q then Inl QueueFull else Inr (q\<lparr>items := items q @ [x]\<rparr>))"

text \<open>
  \<open>loop.call_soon_threadsafe(q.put_nowait, payload)\<close> hands the call to the event loop,
  which runs it later and gives an exception of the callback to its exception handler: the
  queue is then as it was, and nothing reaches the caller. The model runs the callback at
  once.
\<close>

definition call_soon :: "('a aqueue \<Rightarrow> py_error + 'a aqueue) \<Rightarrow> 'a aqueue \<Rightarrow> 'a aqueue" where
  "call_soon cb q = (case cb q of Inl e \<Rightarrow> q | Inr q' \<Rightarrow> q')"

section \<open>The module state\<close>

text \<open>
  \<open>_loop\<close> is \<open>None\<close> until the application's lifespan starts, then the running event
  loop, which is closed when the server goes down.
\<close>

datatype loop_state = Loop_Open | Loop_Closed

text \<open>
  A \<open>subprocess.Popen\<close> object: \<open>returncode\<close> is \<open>None\<close> while the process runs, so
  \<open>poll()\<close> is \<open>None\<close> exactly then.
\<close>

record popen =
  pid :: nat
  returncode :: "int option"

datatype signal = SIGTERM | SIGKILL

record agent_config =
  instructions :: string
  voice :: string
  model :: string

text \<open>
  The globals of the module (\<open>loop\<close> is \<open>_loop\<close>), the queue objects the subscriber lists
  and the generators refer to (a queue is named by a number, \<open>next_ref\<close> is the next unused
  one), and what the module did to the operating system: the processes it created through
  \<open>Popen\<close>, the signals it sent them, and the configuration it last wrote the worker's
  program from.
\<close>

record server =
  loop :: "loop_state option"
  agent_process :: "popen option"
  log_buffer :: "string list"
  log_subscribers :: "nat list"
  tx_buffer :: "event list"
  tx_subscribers :: "nat list"
  log_queues :: "nat \<Rightarrow> string option aqueue"
  tx_queues :: "nat \<Rightarrow> event aqueue"
  next_ref :: nat
  spawned :: "nat list"
  signals :: "(nat \<times> signal) list"
  agent_file :: "agent_config option"

definition initial :: server where
  "initial =
     \<lparr>loop = None, agent_process = None, log_buffer = [], log_subscribers = [],
      tx_buffer = [], tx_subscribers = [],
      log_queues = (\<lambda>_. new_queue 0), tx_queues = (\<lambda>_. new_queue 0),
      next_ref = 0, spawned = [], signals = [], agent_file = None\<rparr>"

definition lifespan :: "server \<Rightarrow> server" where
  "lifespan s = s\<lparr>loop := Some Loop_Open\<rparr>"

definition close_loop :: "server \<Rightarrow> server" where
  "close_loop s = (case loop s of None \<Rightarrow> s | Some _ \<Rightarrow> s\<lparr>loop := Some Loop_Closed\<rparr>)"

section \<open>\<open>_fan_out\<close> and \<open>_reader_thread\<close>\<close>

definition fan_out ::
  "loop_state option \<Rightarrow> nat list \<Rightarrow> 'a \<Rightarrow> (nat \<Rightarrow> 'a aqueue) \<Rightarrow> (nat \<Rightarrow> 'a aqueue)" where
  "fan_out lp subscribers payload heap =
     (if lp \<noteq> Some Loop_Open then heap
      else fold (\<lambda>q h. h(q := call_soon (put_nowait payload) (h q))) subscribers heap)"

text \<open>The body of the loop of \<open>_reader_thread\<close>, for one value \<open>raw\<close> of \<open>readline\<close>.\<close>

definition reader_body :: "string \<Rightarrow> server \<Rightarrow> py_error + server" where
  "reader_body raw s =
     (let line = rstrip raw in
      if line = [] then Inr s
      else
        let s1 = s\<lparr>log_buffer := log_buffer s @ [line]\<rparr>;
            s2 = (if 500 < length (log_buffer s1)
                  then s1\<lparr>log_buffer := last_n 500 (log_buffer s1)\<rparr> else s1);
            s3 = s2\<lparr>log_queues :=
                      fan_out (loop s2) (log_subscribers s2) (Some line) (log_queues s2)\<rparr>
        in
        if py_in ''TRANSCRIPT_USER:'' line then
          (case split_after ''TRANSCRIPT_USER:'' line of
             Inl e \<Rightarrow> Inl e
           | Inr rest \<Rightarrow>
               let text = strip rest in
               if text \<noteq> [] then
                 let ev = transcript_event ''user'' text;
                     s4 = s3\<lparr>tx_buffer := tx_buffer s3 @ [ev]\<rparr>
                 in Inr (s4\<lparr>tx_queues :=
                              fan_out (loop s4) (tx_subscribers s4) ev (tx_queues s4)\<rparr>)
               else Inr s3)
        else if py_in ''TRANSCRIPT_AGENT:'' line then
          (case split_after ''TRANSCRIPT_AGENT:'' line of
             Inl e \<Rightarrow> Inl e
           | Inr rest \<Rightarrow>
               let text = strip rest in
               if text \<noteq> [] then
                 let ev = transcript_event ''agent'' text;
                     s4 = s3\<lparr>tx_buffer := tx_buffer s3 @ [ev]\<rparr>
                 in Inr (s4\<lparr>tx_queues :=
                              fan_out (loop s4) (tx_subscribers s4) ev (tx_queues s4)\<rparr>)
               else Inr s3)
        else if py_in ''AGENT_STATE:'' line then
          (case split_after ''AGENT_STATE:'' line of
             Inl e \<Rightarrow> Inl e
           | Inr rest \<Rightarrow>
               Inr (s3\<lparr>tx_queues :=
                         fan_out (loop s3) (tx_subscribers s3) (state_event (strip rest))
                           (tx_queues s3)\<rparr>))
        else Inr s3)"

text \<open>
  \<open>for raw in iter(proc.stdout.readline, "")\<close>: the values of \<open>readline\<close> in turn, up to the
  first empty one (\<open>readline\<close> returns the empty string at the end of the output).
\<close>

fun reader_loop :: "string list \<Rightarrow> server \<Rightarrow> py_error + server" where
  "reader_loop [] s = Inr s"
| "reader_loop (raw # raws) s =
     (if raw = [] then Inr s
      else case reader_body raw s of Inl e \<Rightarrow> Inl e | Inr s' \<Rightarrow> reader_loop raws s')"

text \<open>The two calls after the loop.\<close>

definition reader_exit :: "server \<Rightarrow> server" where
  "reader_exit s =
     (let s1 = s\<lparr>log_queues := fan_out (loop s) (log_subscribers s) None (log_queues s)\<rparr>
      in s1\<lparr>tx_queues :=
               fan_out (loop s1) (tx_subscribers s1) (state_event ''stopped'') (tx_queues s1)\<rparr>)"


section \<open>The control routes\<close>

text \<open>A response is the dict the route returns.\<close>

datatype jvalue = JStr string | JInt nat

type_synonym response = "(string \<times> jvalue) list"

text \<open>\<open>agent_process and agent_process.poll() is None\<close>\<close>

definition running :: "server \<Rightarrow> bool" where
  "running s = (case agent_process s of None \<Rightarrow> False | Some p \<Rightarrow> returncode p = None)"

definition get_status :: "server \<Rightarrow> response" where
  "get_status s =
     (if running s then [(''status'', JStr ''running'')] else [(''status'', JStr ''stopped'')])"

text \<open>
  The worker ends, by itself or after a signal, with return code \<open>rc\<close>: from then on
  \<open>poll()\<close> of its handle gives \<open>rc\<close>.
\<close>

definition worker_exit :: "int \<Rightarrow> server \<Rightarrow> server" where
  "worker_exit rc s =
     (case agent_process s of
        None \<Rightarrow> s
      | Some p \<Rightarrow>
          if returncode p = None then s\<lparr>agent_process := Some (p\<lparr>returncode := Some rc\<rparr>)\<rparr>
          else s)"

definition default_instructions :: string where
  "default_instructions =
     ''You are a helpful and friendly AI voice assistant. '' @
     ''Listen carefully to what the user says and respond naturally.''"

text \<open>
  \<open>start_agent\<close>. The text of the worker's program is left out: \<open>agent_file\<close> records the
  configuration it is generated from. \<open>new_pid\<close> is the process id the operating system
  gives the new process; writing the file and \<open>Popen\<close> are taken to succeed. The reader
  thread the route starts is the source of the later calls of \<open>reader_body\<close> and
  \<open>reader_exit\<close>.
\<close>

definition start_agent :: "agent_config \<Rightarrow> nat \<Rightarrow> server \<Rightarrow> response \<times> server" where
  "start_agent config new_pid s =
     (if running s then
        ([(''message'', JStr ''Agent already running''), (''status'', JStr ''running'')], s)
      else
        let s1 = s\<lparr>log_buffer := [], tx_buffer := [], log_subscribers := [],
                    tx_subscribers := []\<rparr>;
            instr = (if instructions config \<noteq> [] then instructions config
                     else default_instructions);
            s2 = s1\<lparr>agent_file := Some (config\<lparr>instructions := instr\<rparr>)\<rparr>;
            s3 = s2\<lparr>agent_process := Some \<lparr>pid = new_pid, returncode = None\<rparr>,
                     spawned := spawned s2 @ [new_pid]\<rparr>
        in ([(''message'', JStr ''Agent started''), (''status'', JStr ''running''),
             (''pid'', JInt new_pid)], s3))"

text \<open>
  \<open>stop_agent\<close>. \<open>exits_in_time\<close> says whether the process ends within the six seconds of
  \<open>wait_for\<close>; when it does not, \<open>TimeoutError\<close> is caught and the process is killed.
\<close>

definition stop_agent :: "bool \<Rightarrow> server \<Rightarrow> response \<times> server" where
  "stop_agent exits_in_time s =
     (case agent_process s of
        None \<Rightarrow> ([(''message'', JStr ''Agent was not running''), (''status'', JStr ''stopped'')], s)
      | Some p \<Rightarrow>
          if returncode p = None then
            let s1 = s\<lparr>signals := signals s @ [(pid p, SIGTERM)]\<rparr>;
                s2 = (if exits_in_time then s1
                      else s1\<lparr>signals := signals s1 @ [(pid p, SIGKILL)]\<rparr>)
            in ([(''message'', JStr ''Agent stopped''), (''status'', JStr ''stopped'')],
                s2\<lparr>agent_process := None\<rparr>)
          else
            ([(''message'', JStr ''Agent was not running''), (''status'', JStr ''stopped'')], s))"

section \<open>The streaming routes\<close>

text \<open>
  A route creates a queue, appends it to the subscriber list and returns a response around
  the generator \<open>generate()\<close>, which has not run yet. The generator is a coroutine: its
  state is the queue it closes over and the place where it is suspended.
  \<^item> \<open>Not_Started\<close>: created, no statement run;
  \<^item> \<open>In_Backlog rest\<close>: at the \<open>yield\<close> of the first loop, which is before the \<open>try\<close>,
    with \<open>rest\<close> of the copied history still to come;
  \<^item> \<open>In_Try\<close>: at a \<open>yield\<close> of the \<open>while\<close> loop, inside the \<open>try\<close>;
  \<^item> \<open>Waiting\<close>: inside \<open>wait_for(q.get(), timeout=25)\<close>, on an empty queue;
  \<^item> \<open>After_Terminal\<close>: at the \<open>yield\<close> of the terminal item, with the \<open>break\<close> next;
  \<^item> \<open>Finished\<close>: returned or closed.

  When the client asks for the next frame the generator runs from where it is until it
  yields a frame, has to wait for the queue, or ends.
\<close>

datatype 'a position =
  Not_Started | In_Backlog "'a list" | In_Try | Waiting | After_Terminal | Finished

record 'a generator =
  queue_ref :: nat
  at :: "'a position"

datatype outcome = Yield frame | Pending | Stop

subsection \<open>\<open>stream_logs\<close>\<close>

definition stream_logs :: "server \<Rightarrow> string generator \<times> server" where
  "stream_logs s =
     (let q = next_ref s in
      (\<lparr>queue_ref = q, at = Not_Started\<rparr>,
       s\<lparr>log_queues := (log_queues s)(q := new_queue 500),
         log_subscribers := log_subscribers s @ [q],
         next_ref := Suc q\<rparr>))"

text \<open>The \<open>finally\<close> clause.\<close>

definition logs_finally :: "nat \<Rightarrow> server \<Rightarrow> server" where
  "logs_finally q s =
     (if q \<in> set (log_subscribers s)
      then s\<lparr>log_subscribers := remove1 q (log_subscribers s)\<rparr> else s)"

text \<open>
  One turn of the \<open>while\<close> loop: \<open>q.get()\<close> takes the oldest item of the queue, and waits
  when there is none.
\<close>

definition logs_get ::
  "string generator \<Rightarrow> server \<Rightarrow> outcome \<times> string generator \<times> server" where
  "logs_get g s =
     (case items (log_queues s (queue_ref g)) of
        [] \<Rightarrow> (Pending, g\<lparr>at := Waiting\<rparr>, s)
      | item # rest \<Rightarrow>
          let s' = s\<lparr>log_queues :=
                       (log_queues s)(queue_ref g := (log_queues s (queue_ref g))\<lparr>items := rest\<rparr>)\<rparr>
          in (case item of
                None \<Rightarrow> (Yield (SseData ''agent process exited''), g\<lparr>at := After_Terminal\<rparr>, s')
              | Some line \<Rightarrow> (Yield (SseData line), g\<lparr>at := In_Try\<rparr>, s')))"

definition logs_next ::
  "string generator \<Rightarrow> server \<Rightarrow> outcome \<times> string generator \<times> server" where
  "logs_next g s =
     (case at g of
        Not_Started \<Rightarrow>
          (case log_buffer s of
             [] \<Rightarrow> logs_get g s
           | x # xs \<Rightarrow> (Yield (SseData x), g\<lparr>at := In_Backlog xs\<rparr>, s))
      | In_Backlog rest \<Rightarrow>
          (case rest of
             [] \<Rightarrow> logs_get g s
           | x # xs \<Rightarrow> (Yield (SseData x), g\<lparr>at := In_Backlog xs\<rparr>, s))
      | In_Try \<Rightarrow> logs_get g s
      | Waiting \<Rightarrow> logs_get g s
      | After_Terminal \<Rightarrow> (Stop, g\<lparr>at := Finished\<rparr>, logs_finally (queue_ref g) s)
      | Finished \<Rightarrow> (Stop, g, s))"

text \<open>
  The 25 seconds of \<open>wait_for\<close> pass while the generator waits on an empty queue:
  \<open>TimeoutError\<close> is caught and a ping is yielded.
\<close>

definition logs_timeout :: "string generator \<Rightarrow> server \<Rightarrow> (frame \<times> string generator) option" where
  "logs_timeout g s =
     (if at g = Waiting \<and> items (log_queues s (queue_ref g)) = []
      then Some (SsePing, g\<lparr>at := In_Try\<rparr>) else None)"

text \<open>
  The client goes away, or the response is cancelled: the generator is closed where it is
  suspended. The \<open>finally\<close> clause runs when that place is inside the \<open>try\<close>.
\<close>

definition logs_close :: "string generator \<Rightarrow> server \<Rightarrow> string generator \<times> server" where
  "logs_close g s =
     (case at g of
        Not_Started \<Rightarrow> (g\<lparr>at := Finished\<rparr>, s)
      | In_Backlog rest \<Rightarrow> (g\<lparr>at := Finished\<rparr>, s)
      | In_Try \<Rightarrow> (g\<lparr>at := Finished\<rparr>, logs_finally (queue_ref g) s)
      | Waiting \<Rightarrow> (g\<lparr>at := Finished\<rparr>, logs_finally (queue_ref g) s)
      | After_Terminal \<Rightarrow> (g\<lparr>at := Finished\<rparr>, logs_finally (queue_ref g) s)
      | Finished \<Rightarrow> (g, s))"

text \<open>
  The client reads up to \<open>n\<close> frames, and stops before that when the generator waits or
  ends.
\<close>

fun logs_read ::
  "nat \<Rightarrow> string generator \<Rightarrow> server \<Rightarrow> frame list \<times> string generator \<times> server" where
  "logs_read 0 g s = ([], g, s)"
| "logs_read (Suc n) g s =
     (case logs_next g s of
        (Yield f, g', s') \<Rightarrow>
          (case logs_read n g' s' of (fs, g'', s'') \<Rightarrow> (f # fs, g'', s''))
      | (Pending, g', s') \<Rightarrow> ([], g', s')
      | (Stop, g', s') \<Rightarrow> ([], g', s'))"

subsection \<open>\<open>stream_events\<close>\<close>

definition stream_events :: "server \<Rightarrow> event generator \<times> server" where
  "stream_events s =
     (let q = next_ref s in
      (\<lparr>queue_ref = q, at = Not_Started\<rparr>,
       s\<lparr>tx_queues := (tx_queues s)(q := new_queue 200),
         tx_subscribers := tx_subscribers s @ [q],
         next_ref := Suc q\<rparr>))"

definition events_finally :: "nat \<Rightarrow> server \<Rightarrow> server" where
  "events_finally q s =
     (if q \<in> set (tx_subscribers s)
      then s\<lparr>tx_subscribers := remove1 q (tx_subscribers s)\<rparr> else s)"

text \<open>
  The item is yielded first; the test for the terminal event and the \<open>break\<close> come when the
  generator is resumed.
\<close>

definition events_get ::
  "event generator \<Rightarrow> server \<Rightarrow> outcome \<times> event generator \<times> server" where
  "events_get g s =
     (case items (tx_queues s (queue_ref g)) of
        [] \<Rightarrow> (Pending, g\<lparr>at := Waiting\<rparr>, s)
      | ev # rest \<Rightarrow>
          let s' = s\<lparr>tx_queues :=
                       (tx_queues s)(queue_ref g := (tx_queues s (queue_ref g))\<lparr>items := rest\<rparr>)\<rparr>
          in (Yield (SseJson ev),
              g\<lparr>at := (if is_stopped ev then After_Terminal else In_Try)\<rparr>, s'))"

definition events_next ::
  "event generator \<Rightarrow> server \<Rightarrow> outcome \<times> event generator \<times> server" where
  "events_next g s =
     (case at g of
        Not_Started \<Rightarrow>
          (case tx_buffer s of
             [] \<Rightarrow> events_get g s
           | x # xs \<Rightarrow> (Yield (SseJson x), g\<lparr>at := In_Backlog xs\<rparr>, s))
      | In_Backlog rest \<Rightarrow>
          (case rest of
             [] \<Rightarrow> events_get g s
           | x # xs \<Rightarrow> (Yield (SseJson x), g\<lparr>at := In_Backlog xs\<rparr>, s))
      | In_Try \<Rightarrow> events_get g s
      | Waiting \<Rightarrow> events_get g s
      | After_Terminal \<Rightarrow> (Stop, g\<lparr>at := Finished\<rparr>, events_finally (queue_ref g) s)
      | Finished \<Rightarrow> (Stop, g, s))"

definition events_timeout :: "event generator \<Rightarrow> server \<Rightarrow> (frame \<times> event generator) option" where
  "events_timeout g s =
     (if at g = Waiting \<and> items (tx_queues s (queue_ref g)) = []
      then Some (SsePing, g\<lparr>at := In_Try\<rparr>) else None)"

definition events_close :: "event generator \<Rightarrow> server \<Rightarrow> event generator \<times> server" where
  "events_close g s =
     (case at g of
        Not_Started \<Rightarrow> (g\<lparr>at := Finished\<rparr>, s)
      | In_Backlog rest \<Rightarrow> (g\<lparr>at := Finished\<rparr>, s)
      | In_Try \<Rightarrow> (g\<lparr>at := Finished\<rparr>, events_finally (queue_ref g) s)
      | Waiting \<Rightarrow> (g\<lparr>at := Finished\<rparr>, events_finally (queue_ref g) s)
      | After_Terminal \<Rightarrow> (g\<lparr>at := Finished\<rparr>, events_finally (queue_ref g) s)
      | Finished \<Rightarrow> (g, s))"

fun events_read ::
  "nat \<Rightarrow> event generator \<Rightarrow> server \<Rightarrow> frame list \<times> event generator \<times> server" where
  "events_read 0 g s = ([], g, s)"
| "events_read (Suc n) g s =
     (case events_next g s of
        (Yield f, g', s') \<Rightarrow>
          (case events_read n g' s' of (fs, g'', s'') \<Rightarrow> (f # fs, g'', s''))
      | (Pending, g', s') \<Rightarrow> ([], g', s')
      | (Stop, g', s') \<Rightarrow> ([], g', s'))"

section \<open>The states the server can be in\<close>

text \<open>
  From the state at import, any interleaving of: the lifespan start and the closing of the
  loop; a line or the end of the worker's output seen by the reader thread; the worker's
  exit; the control routes; the streaming routes and the steps of their generators (a
  timeout changes the generator only).
\<close>

inductive reachable :: "server \<Rightarrow> bool" where
  r_initial: "reachable initial"
| r_lifespan: "reachable s \<Longrightarrow> reachable (lifespan s)"
| r_close_loop: "reachable s \<Longrightarrow> reachable (close_loop s)"
| r_line: "reachable s \<Longrightarrow> reader_body raw s = Inr s' \<Longrightarrow> reachable s'"
| r_eof: "reachable s \<Longrightarrow> reachable (reader_exit s)"
| r_worker_exit: "reachable s \<Longrightarrow> reachable (worker_exit rc s)"
| r_start: "reachable s \<Longrightarrow> reachable (snd (start_agent config new_pid s))"
| r_stop: "reachable s \<Longrightarrow> reachable (snd (stop_agent exits_in_time s))"
| r_stream_logs: "reachable s \<Longrightarrow> reachable (snd (stream_logs s))"
| r_logs_next: "reachable s \<Longrightarrow> reachable (snd (snd (logs_next g s)))"
| r_logs_close: "reachable s \<Longrightarrow> reachable (snd (logs_close g s))"
| r_stream_events: "reachable s \<Longrightarrow> reachable (snd (stream_events s))"
| r_events_next: "reachable s \<Longrightarrow> reachable (snd (snd (events_next h s)))"
| r_events_close: "reachable s \<Longrightarrow> reachable (snd (events_close h s))"

section \<open>What the reader publishes, as a function of the line\<close>

text \<open>
  The definitions of this section are not code of \<open>server.py\<close>: they say, as pure functions
  in the manner of the specification's line parser, which lines the reader takes from the
  worker's output and which event a line stands for, with the marker test the code has (a
  marker anywhere in the line). The theorems compare \<open>reader_body\<close> with them.

  \<open>remainder marker line\<close> is the text after the leftmost occurrence of the marker.
\<close>

fun remainder :: "string \<Rightarrow> string \<Rightarrow> string" where
  "remainder marker [] = []"
| "remainder marker (c # cs) =
     (if startswith (c # cs) marker then drop (length marker) (c # cs)
      else remainder marker cs)"

text \<open>
  The markers are looked for anywhere in the line, in the order user, agent, state; the
  first one found decides, and a transcript with an empty text is no event.
\<close>

definition line_parser :: "string \<Rightarrow> event option" where
  "line_parser line =
     (if py_in ''TRANSCRIPT_USER:'' line then
        (if strip (remainder ''TRANSCRIPT_USER:'' line) = [] then None
         else Some (transcript_event ''user'' (strip (remainder ''TRANSCRIPT_USER:'' line))))
      else if py_in ''TRANSCRIPT_AGENT:'' line then
        (if strip (remainder ''TRANSCRIPT_AGENT:'' line) = [] then None
         else Some (transcript_event ''agent'' (strip (remainder ''TRANSCRIPT_AGENT:'' line))))
      else if py_in ''AGENT_STATE:'' line then
        Some (state_event (strip (remainder ''AGENT_STATE:'' line)))
      else None)"

definition is_transcript :: "event \<Rightarrow> bool" where
  "is_transcript ev = (map_of ev ''type'' = Some ''transcript'')"

definition is_state :: "event \<Rightarrow> bool" where
  "is_state ev = (map_of ev ''type'' = Some ''state'')"

text \<open>
  The lines the loop of the reader works on: the values of \<open>readline\<close> up to the first empty
  one, stripped on the right, those that are then empty left out.
\<close>

fun lines_read :: "string list \<Rightarrow> string list" where
  "lines_read [] = []"
| "lines_read (raw # raws) =
     (if raw = [] then []
      else if rstrip raw = [] then lines_read raws
      else rstrip raw # lines_read raws)"

definition events_of :: "string list \<Rightarrow> event list" where
  "events_of ls = List.map_filter line_parser ls"

text \<open>
  What one line does to the state, in those words: it joins the log history, of which the
  last 500 lines are kept, and is offered to the log subscribers; the event it stands for
  is offered to the events subscribers, and joins the events history when it is a
  transcript.
\<close>

definition publish :: "string \<Rightarrow> server \<Rightarrow> server" where
  "publish line s =
     s\<lparr>log_buffer := last_n 500 (log_buffer s @ [line]),
       log_queues := fan_out (loop s) (log_subscribers s) (Some line) (log_queues s),
       tx_buffer := tx_buffer s @ filter is_transcript (events_of [line]),
       tx_queues :=
         (case line_parser line of
            None \<Rightarrow> tx_queues s
          | Some ev \<Rightarrow> fan_out (loop s) (tx_subscribers s) ev (tx_queues s))\<rparr>"

text \<open>
  The events stream ends with the first terminal event it takes from its queue: of a queue
  holding \<open>evs\<close> it delivers \<open>upto_stopped evs\<close>.
\<close>

fun upto_stopped :: "event list \<Rightarrow> event list" where
  "upto_stopped [] = []"
| "upto_stopped (ev # evs) = (if is_stopped ev then [ev] else ev # upto_stopped evs)"

text \<open>
  The log stream ends with the first \<open>None\<close> it takes from its queue: of a queue holding
  \<open>its\<close> it delivers the frames \<open>log_frames its\<close>.
\<close>

fun log_frames :: "string option list \<Rightarrow> frame list" where
  "log_frames [] = []"
| "log_frames (None # its) = [SseData ''agent process exited'']"
| "log_frames (Some line # its) = SseData line # log_frames its"

section \<open>An invariant of the reachable states\<close>

text \<open>
  The subscriber lists hold no queue twice; their queues have been created by the
  streaming routes, with the bound of their route; the log history holds at most 500 lines;
  the events history holds transcript events only.
\<close>

definition invariant :: "server \<Rightarrow> bool" where
  "invariant s =
     (distinct (log_subscribers s) \<and> distinct (tx_subscribers s) \<and>
      (\<forall>q\<in>set (log_subscribers s). q < next_ref s \<and> maxsize (log_queues s q) = 500) \<and>
      (\<forall>q\<in>set (tx_subscribers s). q < next_ref s \<and> maxsize (tx_queues s q) = 200) \<and>
      length (log_buffer s) \<le> 500 \<and>
      (\<forall>ev\<in>set (tx_buffer s). is_transcript ev))"

section \<open>Properties of the string operations\<close>

lemma startswith_iff: "startswith s p \<longleftrightarrow> (\<exists>r. s = p @ r)"
  by (induction s p rule: startswith.induct) auto

lemma find_str_Some:
  "find_str sub s = Some i \<Longrightarrow>
     i + length sub \<le> length s \<and> s = take i s @ sub @ drop (i + length sub) s"
proof (induction s arbitrary: i)
  case Nil
  then show ?case by (auto split: if_splits)
next
  case (Cons c cs)
  show ?case
  proof (cases "startswith (c # cs) sub")
    case True
    then obtain r where "c # cs = sub @ r" by (auto simp: startswith_iff)
    moreover from True Cons.prems have "i = 0" by simp
    ultimately show ?thesis by (metis add_0 append_Nil append_eq_conv_conj le_add1 length_append take_0)
  next
    case False
    with Cons.prems obtain j where j: "find_str sub cs = Some j" "i = Suc j" by auto
    from Cons.IH[OF j(1)] j(2) show ?thesis by auto
  qed
qed

lemma find_str_None: "find_str sub s = None \<Longrightarrow> s \<noteq> a @ sub @ b"
proof (induction s arbitrary: a)
  case Nil
  then show ?case by (auto split: if_splits)
next
  case (Cons c cs)
  then have ns: "\<not> startswith (c # cs) sub" and n: "find_str sub cs = None"
    by (auto split: if_splits)
  show ?case
  proof (cases a)
    case Nil
    with ns show ?thesis by (auto simp: startswith_iff)
  next
    case (Cons x xs)
    with Cons.IH[OF n, of xs] show ?thesis by auto
  qed
qed

lemma py_in_iff: "py_in sub s \<longleftrightarrow> (\<exists>a b. s = a @ sub @ b)"
  unfolding py_in_def
  by (metis find_str_None find_str_Some not_None_eq)

lemma find_str_leftmost:
  "find_str sub s = Some i \<Longrightarrow> j < i \<Longrightarrow> \<not> startswith (drop j s) sub"
proof (induction s arbitrary: i j)
  case Nil
  then show ?case by (auto split: if_splits)
next
  case (Cons c cs)
  from Cons.prems have ns: "\<not> startswith (c # cs) sub"
    by (auto split: if_splits)
  with Cons.prems obtain k where k: "find_str sub cs = Some k" "i = Suc k" by auto
  show ?case
  proof (cases j)
    case 0
    with ns show ?thesis by simp
  next
    case (Suc j')
    with Cons.IH[OF k(1), of j'] k(2) Cons.prems(2) show ?thesis by simp
  qed
qed

lemma remainder_find:
  "find_str marker s = Some i \<Longrightarrow> remainder marker s = drop (i + length marker) s"
  by (induction s arbitrary: i) (auto split: if_splits)

lemma split_after_in:
  assumes "py_in marker line" and "marker \<noteq> []"
  shows "split_after marker line = Inr (remainder marker line)"
proof -
  from assms(1) obtain i where i: "find_str marker line = Some i"
    by (auto simp: py_in_def)
  with assms(2) show ?thesis
    by (simp add: split_after_def split1_def getitem_def remainder_find)
qed

lemma remainder_prefix: "remainder marker (marker @ rest) = rest"
proof (cases "marker @ rest")
  case Nil
  then show ?thesis by simp
next
  case (Cons c cs)
  have "startswith (marker @ rest) marker" by (simp add: startswith_iff)
  with Cons have "remainder marker (marker @ rest) = drop (length marker) (marker @ rest)"
    by simp
  then show ?thesis by simp
qed

lemma py_in_prefix: "py_in marker (marker @ rest)"
  by (metis append_Nil py_in_iff)

lemma rstrip_Nil_iff: "rstrip s = [] \<longleftrightarrow> (\<forall>c\<in>set s. isspace c)"
  by (auto simp: rstrip_def dropWhile_eq_Nil_conv)

lemma rstrip_append_space:
  assumes "\<forall>c\<in>set ws. isspace c" and "s \<noteq> []" and "\<not> isspace (last s)"
  shows "rstrip (s @ ws) = s"
proof -
  have "dropWhile isspace (rev ws @ rev s) = dropWhile isspace (rev s)"
    using assms(1) by (simp add: dropWhile_append)
  also have "\<dots> = rev s"
    using assms(2,3) by (cases "rev s") (auto simp: last_rev hd_rev[symmetric])
  finally show ?thesis by (simp add: rstrip_def)
qed

lemma last_n_short: "length xs \<le> n \<Longrightarrow> last_n n xs = xs"
  by (simp add: last_n_def)

lemma length_last_n: "length (last_n n xs) = min n (length xs)"
  by (auto simp: last_n_def)

lemma last_n_last_n_snoc: "last_n n (last_n n xs @ ys) = last_n n (xs @ ys)"
proof (cases "length xs \<le> n")
  case True
  then show ?thesis by (simp add: last_n_def)
next
  case False
  then show ?thesis by (simp add: last_n_def add.commute)
qed

section \<open>Properties of \<open>_fan_out\<close>\<close>

lemma fan_out_not_open: "lp \<noteq> Some Loop_Open \<Longrightarrow> fan_out lp subs x h = h"
  by (simp add: fan_out_def)

lemma fold_put_notin:
  "q \<notin> set subs \<Longrightarrow> fold (\<lambda>q h. h(q := call_soon (put_nowait x) (h q))) subs h q = h q"
  by (induction subs arbitrary: h) auto

lemma fold_put_in:
  "distinct subs \<Longrightarrow> q \<in> set subs \<Longrightarrow>
     fold (\<lambda>q h. h(q := call_soon (put_nowait x) (h q))) subs h q = call_soon (put_nowait x) (h q)"
  by (induction subs arbitrary: h) (auto simp: fold_put_notin)

lemma call_soon_put:
  "call_soon (put_nowait x) q = (if full q then q else q\<lparr>items := items q @ [x]\<rparr>)"
  by (simp add: call_soon_def put_nowait_def)

lemma fan_out_at:
  assumes "distinct subs"
  shows "fan_out lp subs x h q =
     (if lp = Some Loop_Open \<and> q \<in> set subs \<and> \<not> full (h q)
      then (h q)\<lparr>items := items (h q) @ [x]\<rparr> else h q)"
proof (cases "lp = Some Loop_Open")
  case False
  then show ?thesis by (simp add: fan_out_def)
next
  case True
  show ?thesis
  proof (cases "q \<in> set subs")
    case False
    with True show ?thesis by (simp add: fan_out_def fold_put_notin)
  next
    case inq: True
    have "fan_out lp subs x h q = call_soon (put_nowait x) (h q)"
      using True fold_put_in[OF assms inq] by (simp add: fan_out_def)
    with True inq show ?thesis by (simp add: call_soon_put)
  qed
qed

lemma fan_out_notin: "q \<notin> set subs \<Longrightarrow> fan_out lp subs x h q = h q"
  by (simp add: fan_out_def fold_put_notin)

section \<open>Properties of the reader\<close>

lemma events_of_single:
  "events_of [line] = (case line_parser line of None \<Rightarrow> [] | Some ev \<Rightarrow> [ev])"
  by (simp add: events_of_def List.map_filter_def split: option.splits)

lemma is_transcript_simps [simp]:
  "is_transcript (transcript_event role text)" "\<not> is_transcript (state_event st)"
  by (simp_all add: is_transcript_def transcript_event_def state_event_def)

lemma is_state_simps [simp]:
  "\<not> is_state (transcript_event role text)" "is_state (state_event st)"
  by (simp_all add: is_state_def transcript_event_def state_event_def)

lemma is_stopped_simps [simp]:
  "\<not> is_stopped (transcript_event role text)"
  "is_stopped (state_event st) \<longleftrightarrow> st = ''stopped''"
  by (simp_all add: is_stopped_def transcript_event_def state_event_def)

lemma reader_body_publish:
  assumes "rstrip raw \<noteq> []"
  shows "reader_body raw s = Inr (publish (rstrip raw) s)"
proof -
  let ?line = "rstrip raw"
  consider (user) "py_in ''TRANSCRIPT_USER:'' ?line"
    | (agent) "\<not> py_in ''TRANSCRIPT_USER:'' ?line" "py_in ''TRANSCRIPT_AGENT:'' ?line"
    | (state) "\<not> py_in ''TRANSCRIPT_USER:'' ?line" "\<not> py_in ''TRANSCRIPT_AGENT:'' ?line"
        "py_in ''AGENT_STATE:'' ?line"
    | (plain) "\<not> py_in ''TRANSCRIPT_USER:'' ?line" "\<not> py_in ''TRANSCRIPT_AGENT:'' ?line"
        "\<not> py_in ''AGENT_STATE:'' ?line"
    by blast
  then show ?thesis
  proof cases
    case user
    then have "split_after ''TRANSCRIPT_USER:'' ?line = Inr (remainder ''TRANSCRIPT_USER:'' ?line)"
      by (simp add: split_after_in)
    with user assms show ?thesis
      by (simp add: reader_body_def publish_def line_parser_def events_of_single Let_def last_n_short)
  next
    case agent
    then have "split_after ''TRANSCRIPT_AGENT:'' ?line = Inr (remainder ''TRANSCRIPT_AGENT:'' ?line)"
      by (simp add: split_after_in)
    with agent assms show ?thesis
      by (simp add: reader_body_def publish_def line_parser_def events_of_single Let_def last_n_short)
  next
    case state
    then have "split_after ''AGENT_STATE:'' ?line = Inr (remainder ''AGENT_STATE:'' ?line)"
      by (simp add: split_after_in)
    with state assms show ?thesis
      by (simp add: reader_body_def publish_def line_parser_def events_of_single Let_def last_n_short)
  next
    case plain
    with assms show ?thesis
      by (simp add: reader_body_def publish_def line_parser_def events_of_single Let_def last_n_short)
  qed
qed

lemma reader_body_blank: "rstrip raw = [] \<Longrightarrow> reader_body raw s = Inr s"
  by (simp add: reader_body_def)

lemma reader_loop_publish: "reader_loop raws s = Inr (fold publish (lines_read raws) s)"
  by (induction raws arbitrary: s) (simp_all add: reader_body_publish reader_body_blank)

lemma publish_unchanged [simp]:
  "loop (publish l s) = loop s"
  "log_subscribers (publish l s) = log_subscribers s"
  "tx_subscribers (publish l s) = tx_subscribers s"
  "agent_process (publish l s) = agent_process s"
  "next_ref (publish l s) = next_ref s"
  "spawned (publish l s) = spawned s"
  "signals (publish l s) = signals s"
  "agent_file (publish l s) = agent_file s"
  by (simp_all add: publish_def)

lemma fold_publish_unchanged [simp]:
  "loop (fold publish ls s) = loop s"
  "log_subscribers (fold publish ls s) = log_subscribers s"
  "tx_subscribers (fold publish ls s) = tx_subscribers s"
  "agent_process (fold publish ls s) = agent_process s"
  "next_ref (fold publish ls s) = next_ref s"
  "spawned (fold publish ls s) = spawned s"
  "signals (fold publish ls s) = signals s"
  "agent_file (fold publish ls s) = agent_file s"
  by (induction ls arbitrary: s) simp_all

lemma log_buffer_publish: "log_buffer (publish l s) = last_n 500 (log_buffer s @ [l])"
  by (simp add: publish_def)

lemma tx_buffer_publish:
  "tx_buffer (publish l s) = tx_buffer s @ filter is_transcript (events_of [l])"
  by (simp add: publish_def)

lemma log_buffer_fold_publish:
  "length (log_buffer s) \<le> 500 \<Longrightarrow>
     log_buffer (fold publish ls s) = last_n 500 (log_buffer s @ ls)"
proof (induction ls arbitrary: s)
  case Nil
  then show ?case by (simp add: last_n_short)
next
  case (Cons l ls)
  have "length (log_buffer (publish l s)) \<le> 500"
    by (simp add: log_buffer_publish length_last_n)
  from Cons.IH[OF this] show ?case
    using last_n_last_n_snoc[of 500 "log_buffer s @ [l]" ls]
    by (simp add: log_buffer_publish)
qed

lemma events_of_Cons: "events_of (l # ls) = events_of [l] @ events_of ls"
  by (simp add: events_of_def List.map_filter_def)

lemma events_of_append: "events_of (ks @ ls) = events_of ks @ events_of ls"
  by (simp add: events_of_def List.map_filter_def)

lemma tx_buffer_fold_publish:
  "tx_buffer (fold publish ls s) = tx_buffer s @ filter is_transcript (events_of ls)"
proof (induction ls arbitrary: s)
  case Nil
  show ?case by (simp add: events_of_def List.map_filter_def)
next
  case (Cons l ls)
  show ?case
    by (simp add: Cons.IH tx_buffer_publish events_of_Cons[of l ls])
qed

lemma log_queue_publish:
  assumes "loop s = Some Loop_Open" and "distinct (log_subscribers s)"
    and "q \<in> set (log_subscribers s)" and "\<not> full (log_queues s q)"
  shows "log_queues (publish l s) q =
           (log_queues s q)\<lparr>items := items (log_queues s q) @ [Some l]\<rparr>"
  using assms by (simp add: publish_def fan_out_at)

lemma tx_queue_publish:
  assumes "loop s = Some Loop_Open" and "distinct (tx_subscribers s)"
    and "q \<in> set (tx_subscribers s)" and "\<not> full (tx_queues s q)"
  shows "tx_queues (publish l s) q =
           (tx_queues s q)\<lparr>items := items (tx_queues s q) @ events_of [l]\<rparr>"
  using assms by (simp add: publish_def fan_out_at events_of_single split: option.splits)

lemma log_queue_fold_publish:
  assumes "loop s = Some Loop_Open" and "distinct (log_subscribers s)"
    and "q \<in> set (log_subscribers s)"
    and "length (items (log_queues s q)) + length ls \<le> maxsize (log_queues s q)"
  shows "log_queues (fold publish ls s) q =
           (log_queues s q)\<lparr>items := items (log_queues s q) @ map Some ls\<rparr>"
  using assms
proof (induction ls arbitrary: s)
  case Nil
  then show ?case by simp
next
  case (Cons l ls)
  from Cons.prems(4) have nf: "\<not> full (log_queues s q)"
    by (simp add: full_def)
  have step: "log_queues (publish l s) q =
      (log_queues s q)\<lparr>items := items (log_queues s q) @ [Some l]\<rparr>"
    by (rule log_queue_publish[OF Cons.prems(1-3) nf])
  have "log_queues (fold publish ls (publish l s)) q =
      (log_queues (publish l s) q)\<lparr>items := items (log_queues (publish l s) q) @ map Some ls\<rparr>"
    using Cons.prems by (intro Cons.IH) (simp_all add: step)
  then show ?case by (simp add: step)
qed

lemma tx_queue_fold_publish:
  assumes "loop s = Some Loop_Open" and "distinct (tx_subscribers s)"
    and "q \<in> set (tx_subscribers s)"
    and "length (items (tx_queues s q)) + length (events_of ls) \<le> maxsize (tx_queues s q)"
  shows "tx_queues (fold publish ls s) q =
           (tx_queues s q)\<lparr>items := items (tx_queues s q) @ events_of ls\<rparr>"
  using assms
proof (induction ls arbitrary: s)
  case Nil
  then show ?case by (simp add: events_of_def List.map_filter_def)
next
  case (Cons l ls)
  note split = events_of_Cons[of l ls]
  show ?case
  proof (cases "line_parser l")
    case None
    then have same: "tx_queues (publish l s) = tx_queues s" and e: "events_of [l] = []"
      by (simp_all add: publish_def events_of_single)
    have "tx_queues (fold publish ls (publish l s)) q =
      (tx_queues (publish l s) q)\<lparr>items := items (tx_queues (publish l s) q) @ events_of ls\<rparr>"
      using Cons.prems by (intro Cons.IH) (simp_all add: same split e)
    then show ?thesis by (simp add: same split e)
  next
    case (Some ev)
    then have e: "events_of [l] = [ev]" by (simp add: events_of_single)
    from Cons.prems(4) have nf: "\<not> full (tx_queues s q)"
      by (simp add: full_def split e)
    have step: "tx_queues (publish l s) q =
        (tx_queues s q)\<lparr>items := items (tx_queues s q) @ [ev]\<rparr>"
      using tx_queue_publish[OF Cons.prems(1-3) nf, of l] by (simp add: e)
    have "tx_queues (fold publish ls (publish l s)) q =
      (tx_queues (publish l s) q)\<lparr>items := items (tx_queues (publish l s) q) @ events_of ls\<rparr>"
      using Cons.prems by (intro Cons.IH) (simp_all add: step split e)
    then show ?thesis by (simp add: step split e)
  qed
qed

section \<open>The control routes\<close>

text \<open>
  C6. When a worker is running, \<open>start_agent\<close> answers that the agent is already running
  and leaves the whole state as it is: no process is created, no history and no subscriber
  list is touched. Otherwise it empties both histories and both subscriber lists, creates
  one process, keeps its handle and answers with its process id; the worker then counts as
  running, so that a second \<open>start_agent\<close> right after it creates nothing.
\<close>

theorem C6_start_agent:
  "(running s \<longrightarrow>
      start_agent config new_pid s =
        ([(''message'', JStr ''Agent already running''), (''status'', JStr ''running'')], s)) \<and>
   (\<not> running s \<longrightarrow>
      fst (start_agent config new_pid s) =
        [(''message'', JStr ''Agent started''), (''status'', JStr ''running''),
         (''pid'', JInt new_pid)] \<and>
      log_buffer (snd (start_agent config new_pid s)) = [] \<and>
      tx_buffer (snd (start_agent config new_pid s)) = [] \<and>
      log_subscribers (snd (start_agent config new_pid s)) = [] \<and>
      tx_subscribers (snd (start_agent config new_pid s)) = [] \<and>
      spawned (snd (start_agent config new_pid s)) = spawned s @ [new_pid] \<and>
      agent_process (snd (start_agent config new_pid s)) =
        Some \<lparr>pid = new_pid, returncode = None\<rparr> \<and>
      start_agent config' pid' (snd (start_agent config new_pid s)) =
        ([(''message'', JStr ''Agent already running''), (''status'', JStr ''running'')],
         snd (start_agent config new_pid s)))"
  by (simp add: start_agent_def running_def Let_def)

theorem C6_start_agent_witness:
  "\<not> running initial \<and>
   running (snd (start_agent \<lparr>instructions = [], voice = ''Puck'', model = ''m''\<rparr> 4711 initial)) \<and>
   spawned (snd (start_agent \<lparr>instructions = [], voice = ''Puck'', model = ''m''\<rparr> 4712
     (snd (start_agent \<lparr>instructions = [], voice = ''Puck'', model = ''m''\<rparr> 4711 initial))))
     = [4711] \<and>
   fst (start_agent \<lparr>instructions = [], voice = ''Puck'', model = ''m''\<rparr> 4712
     (snd (start_agent \<lparr>instructions = [], voice = ''Puck'', model = ''m''\<rparr> 4711 initial)))
     = [(''message'', JStr ''Agent already running''), (''status'', JStr ''running'')]"
proof -
  let ?c = "\<lparr>instructions = [], voice = ''Puck'', model = ''m''\<rparr>"
  have n: "\<not> running initial" by (simp add: running_def initial_def)
  have r: "running (snd (start_agent ?c 4711 initial))"
    using n C6_start_agent[of initial ?c 4711 ?c 4712] by (simp add: running_def)
  from n r C6_start_agent[of initial ?c 4711 ?c 4712]
    C6_start_agent[of "snd (start_agent ?c 4711 initial)" ?c 4712 ?c 4713]
  show ?thesis by (simp add: initial_def)
qed

text \<open>
  C7. When no worker is running (there is no handle, or the process of the handle has
  ended), \<open>stop_agent\<close> answers that the agent was not running and leaves the whole state
  as it is: the handle, both histories and both subscriber lists.
\<close>

theorem C7_stop_not_running:
  "\<not> running s \<Longrightarrow>
     stop_agent exits_in_time s =
       ([(''message'', JStr ''Agent was not running''), (''status'', JStr ''stopped'')], s)"
  by (auto simp: stop_agent_def running_def split: option.splits)

theorem C7_stop_not_running_witness:
  "\<not> running (worker_exit 1 (snd (start_agent \<lparr>instructions = [], voice = ''Puck'', model = ''m''\<rparr> 4711 initial))) \<and>
   stop_agent True (worker_exit 1 (snd (start_agent \<lparr>instructions = [], voice = ''Puck'', model = ''m''\<rparr> 4711 initial))) =
     ([(''message'', JStr ''Agent was not running''), (''status'', JStr ''stopped'')],
      worker_exit 1 (snd (start_agent \<lparr>instructions = [], voice = ''Puck'', model = ''m''\<rparr> 4711 initial)))"
proof -
  let ?s = "worker_exit 1 (snd (start_agent \<lparr>instructions = [], voice = ''Puck'', model = ''m''\<rparr> 4711 initial))"
  have n: "\<not> running ?s"
    by (simp add: running_def worker_exit_def start_agent_def initial_def Let_def)
  from n C7_stop_not_running[OF n, of True] show ?thesis by simp
qed

section \<open>The invariant holds in every reachable state\<close>

lemma fold_put_maxsize:
  "maxsize (fold (\<lambda>q h. h(q := call_soon (put_nowait x) (h q))) subs h q) = maxsize (h q)"
  by (induction subs arbitrary: h) (auto simp: call_soon_put)

lemma fan_out_maxsize [simp]: "maxsize (fan_out lp subs x h q) = maxsize (h q)"
  by (simp add: fan_out_def fold_put_maxsize)

lemma invariant_initial: "invariant initial"
  by (simp add: invariant_def initial_def)

lemma invariant_lifespan: "invariant s \<Longrightarrow> invariant (lifespan s)"
  by (simp add: invariant_def lifespan_def)

lemma invariant_close_loop: "invariant s \<Longrightarrow> invariant (close_loop s)"
  by (simp add: invariant_def close_loop_def split: option.splits)

lemma invariant_publish: "invariant s \<Longrightarrow> invariant (publish l s)"
  by (auto simp: invariant_def publish_def length_last_n split: option.splits)

lemma invariant_reader_body:
  assumes "invariant s" and "reader_body raw s = Inr s'"
  shows "invariant s'"
proof (cases "rstrip raw = []")
  case True
  with assms show ?thesis by (simp add: reader_body_blank)
next
  case False
  with assms show ?thesis by (auto simp: reader_body_publish invariant_publish)
qed

lemma invariant_reader_exit: "invariant s \<Longrightarrow> invariant (reader_exit s)"
  by (simp add: invariant_def reader_exit_def Let_def)

lemma invariant_worker_exit: "invariant s \<Longrightarrow> invariant (worker_exit rc s)"
  by (simp add: invariant_def worker_exit_def split: option.splits)

lemma invariant_start_agent: "invariant s \<Longrightarrow> invariant (snd (start_agent config new_pid s))"
  by (simp add: invariant_def start_agent_def Let_def)

lemma invariant_stop_agent: "invariant s \<Longrightarrow> invariant (snd (stop_agent exits_in_time s))"
  by (simp add: invariant_def stop_agent_def Let_def split: option.splits)

lemma invariant_stream_logs: "invariant s \<Longrightarrow> invariant (snd (stream_logs s))"
  by (auto simp: invariant_def stream_logs_def Let_def new_queue_def less_Suc_eq)

lemma invariant_stream_events: "invariant s \<Longrightarrow> invariant (snd (stream_events s))"
  by (auto simp: invariant_def stream_events_def Let_def new_queue_def less_Suc_eq)

lemma invariant_logs_finally: "invariant s \<Longrightarrow> invariant (logs_finally q s)"
  by (auto simp: invariant_def logs_finally_def dest: notin_set_remove1)

lemma invariant_events_finally: "invariant s \<Longrightarrow> invariant (events_finally q s)"
  by (auto simp: invariant_def events_finally_def dest: notin_set_remove1)

lemma invariant_logs_get: "invariant s \<Longrightarrow> invariant (snd (snd (logs_get g s)))"
  by (auto simp: invariant_def logs_get_def Let_def split: list.splits option.splits)

lemma invariant_events_get: "invariant s \<Longrightarrow> invariant (snd (snd (events_get g s)))"
  by (auto simp: invariant_def events_get_def Let_def split: list.splits)

lemma invariant_logs_next: "invariant s \<Longrightarrow> invariant (snd (snd (logs_next g s)))"
  by (auto simp: logs_next_def invariant_logs_get invariant_logs_finally
      split: position.splits list.splits)

lemma invariant_events_next: "invariant s \<Longrightarrow> invariant (snd (snd (events_next g s)))"
  by (auto simp: events_next_def invariant_events_get invariant_events_finally
      split: position.splits list.splits)

lemma invariant_logs_close: "invariant s \<Longrightarrow> invariant (snd (logs_close g s))"
  by (auto simp: logs_close_def invariant_logs_finally split: position.splits)

lemma invariant_events_close: "invariant s \<Longrightarrow> invariant (snd (events_close g s))"
  by (auto simp: events_close_def invariant_events_finally split: position.splits)

lemma reachable_invariant: "reachable s \<Longrightarrow> invariant s"
proof (induction rule: reachable.induct)
  case r_initial
  show ?case by (rule invariant_initial)
next
  case (r_line s raw s')
  then show ?case by (blast intro: invariant_reader_body)
qed (simp_all add: invariant_lifespan invariant_close_loop invariant_reader_exit
      invariant_worker_exit invariant_start_agent invariant_stop_agent
      invariant_stream_logs invariant_stream_events invariant_logs_next
      invariant_events_next invariant_logs_close invariant_events_close)

section \<open>What a client reads from a generator\<close>

lemma events_finally_subscribers:
  "tx_subscribers (events_finally q s) = remove1 q (tx_subscribers s)"
  by (simp add: events_finally_def remove1_idem)

lemma logs_finally_subscribers:
  "log_subscribers (logs_finally q s) = remove1 q (log_subscribers s)"
  by (simp add: logs_finally_def remove1_idem)



lemma events_read_queue:
  assumes "at g = In_Try \<or> at g = Waiting \<or> at g = In_Backlog []"
    and "items (tx_queues s (queue_ref g)) = evs"
    and "length (upto_stopped evs) < n"
  shows "\<exists>s'. events_read n g s =
           (map SseJson (upto_stopped evs),
            g\<lparr>at := (if \<exists>e\<in>set evs. is_stopped e then Finished else Waiting)\<rparr>, s') \<and>
         tx_subscribers s' =
           (if \<exists>e\<in>set evs. is_stopped e then remove1 (queue_ref g) (tx_subscribers s)
            else tx_subscribers s)"
  using assms
proof (induction evs arbitrary: g s n)
  case Nil
  then obtain m where n: "n = Suc m" by (cases n) auto
  from Nil have "events_next g s = (Pending, g\<lparr>at := Waiting\<rparr>, s)"
    by (auto simp: events_next_def events_get_def)
  with n show ?case by simp
next
  case (Cons e es)
  then obtain m where n: "n = Suc m" by (cases n) auto
  let ?s1 = "s\<lparr>tx_queues :=
      (tx_queues s)(queue_ref g := (tx_queues s (queue_ref g))\<lparr>items := es\<rparr>)\<rparr>"
  let ?g1 = "g\<lparr>at := (if is_stopped e then After_Terminal else In_Try)\<rparr>"
  from Cons.prems(1,2) have nx: "events_next g s = (Yield (SseJson e), ?g1, ?s1)"
    by (auto simp: events_next_def events_get_def Let_def)
  show ?case
  proof (cases "is_stopped e")
    case True
    with Cons.prems(3) n obtain k where m: "m = Suc k" by (cases m) auto
    from True have "events_next ?g1 ?s1 = (Stop, g\<lparr>at := Finished\<rparr>, events_finally (queue_ref g) ?s1)"
      by (simp add: events_next_def)
    with True nx n m show ?thesis
      by (simp add: events_finally_subscribers)
  next
    case False
    have "\<exists>s'. events_read m ?g1 ?s1 =
           (map SseJson (upto_stopped es),
            ?g1\<lparr>at := (if \<exists>e\<in>set es. is_stopped e then Finished else Waiting)\<rparr>, s') \<and>
         tx_subscribers s' =
           (if \<exists>e\<in>set es. is_stopped e then remove1 (queue_ref ?g1) (tx_subscribers ?s1)
            else tx_subscribers ?s1)"
      using Cons.prems(3) n False by (intro Cons.IH) simp_all
    then obtain s' where s': "events_read m ?g1 ?s1 =
           (map SseJson (upto_stopped es),
            ?g1\<lparr>at := (if \<exists>e\<in>set es. is_stopped e then Finished else Waiting)\<rparr>, s')"
        "tx_subscribers s' =
           (if \<exists>e\<in>set es. is_stopped e then remove1 (queue_ref ?g1) (tx_subscribers ?s1)
            else tx_subscribers ?s1)" by blast
    from False nx n s' show ?thesis by simp
  qed
qed

lemma events_read_backlog:
  assumes "at g = In_Backlog rest"
    and "items (tx_queues s (queue_ref g)) = evs"
    and "length rest + length (upto_stopped evs) < n"
  shows "\<exists>s'. events_read n g s =
           (map SseJson (rest @ upto_stopped evs),
            g\<lparr>at := (if \<exists>e\<in>set evs. is_stopped e then Finished else Waiting)\<rparr>, s') \<and>
         tx_subscribers s' =
           (if \<exists>e\<in>set evs. is_stopped e then remove1 (queue_ref g) (tx_subscribers s)
            else tx_subscribers s)"
  using assms
proof (induction rest arbitrary: g n)
  case Nil
  then show ?case using events_read_queue[of g s evs n] by simp
next
  case (Cons x xs)
  then obtain m where n: "n = Suc m" by (cases n) auto
  let ?g1 = "g\<lparr>at := In_Backlog xs\<rparr>"
  from Cons.prems(1) have nx: "events_next g s = (Yield (SseJson x), ?g1, s)"
    by (simp add: events_next_def)
  have "\<exists>s'. events_read m ?g1 s =
           (map SseJson (xs @ upto_stopped evs),
            ?g1\<lparr>at := (if \<exists>e\<in>set evs. is_stopped e then Finished else Waiting)\<rparr>, s') \<and>
         tx_subscribers s' =
           (if \<exists>e\<in>set evs. is_stopped e then remove1 (queue_ref ?g1) (tx_subscribers s)
            else tx_subscribers s)"
    using Cons.prems n by (intro Cons.IH) simp_all
  then obtain s' where "events_read m ?g1 s =
           (map SseJson (xs @ upto_stopped evs),
            ?g1\<lparr>at := (if \<exists>e\<in>set evs. is_stopped e then Finished else Waiting)\<rparr>, s')"
        "tx_subscribers s' =
           (if \<exists>e\<in>set evs. is_stopped e then remove1 (queue_ref ?g1) (tx_subscribers s)
            else tx_subscribers s)" by blast
  with nx n show ?case by simp
qed

lemma events_get_at [simp]: "events_get (g\<lparr>at := p\<rparr>) s = events_get g s"
  by (simp add: events_get_def split: list.splits)

lemma events_read_not_started:
  "at g = Not_Started \<Longrightarrow>
     events_read (Suc n) g s = events_read (Suc n) (g\<lparr>at := In_Backlog (tx_buffer s)\<rparr>) s"
  by (simp add: events_next_def split: list.splits)

lemma events_read_subscription:
  assumes "at g = Not_Started"
    and "items (tx_queues s (queue_ref g)) = evs"
    and "length (tx_buffer s) + length (upto_stopped evs) < n"
  shows "\<exists>s'. events_read n g s =
           (map SseJson (tx_buffer s @ upto_stopped evs),
            g\<lparr>at := (if \<exists>e\<in>set evs. is_stopped e then Finished else Waiting)\<rparr>, s') \<and>
         tx_subscribers s' =
           (if \<exists>e\<in>set evs. is_stopped e then remove1 (queue_ref g) (tx_subscribers s)
            else tx_subscribers s)"
proof -
  from assms(3) obtain m where n: "n = Suc m" by (cases n) auto
  let ?g = "g\<lparr>at := In_Backlog (tx_buffer s)\<rparr>"
  have "events_read n g s = events_read n ?g s"
    using assms(1) n by (simp only: events_read_not_started)
  moreover have "\<exists>s'. events_read n ?g s =
           (map SseJson (tx_buffer s @ upto_stopped evs),
            ?g\<lparr>at := (if \<exists>e\<in>set evs. is_stopped e then Finished else Waiting)\<rparr>, s') \<and>
         tx_subscribers s' =
           (if \<exists>e\<in>set evs. is_stopped e then remove1 (queue_ref ?g) (tx_subscribers s)
            else tx_subscribers s)"
    using assms(2,3) by (intro events_read_backlog) simp_all
  ultimately show ?thesis by (cases "\<exists>e\<in>set evs. is_stopped e") auto
qed

lemma log_frames_lines [simp]: "log_frames (map Some ls) = map SseData ls"
  by (induction ls) simp_all


lemma logs_get_at [simp]: "logs_get (g\<lparr>at := p\<rparr>) s = logs_get g s"
  by (simp add: logs_get_def Let_def split: list.splits option.splits)

lemma logs_read_queue:
  assumes "at g = In_Try \<or> at g = Waiting \<or> at g = In_Backlog []"
    and "items (log_queues s (queue_ref g)) = its"
    and "length (log_frames its) < n"
  shows "\<exists>s'. logs_read n g s =
           (log_frames its, g\<lparr>at := (if None \<in> set its then Finished else Waiting)\<rparr>, s') \<and>
         log_subscribers s' =
           (if None \<in> set its then remove1 (queue_ref g) (log_subscribers s)
            else log_subscribers s)"
  using assms
proof (induction its arbitrary: g s n)
  case Nil
  then obtain m where n: "n = Suc m" by (cases n) auto
  from Nil have "logs_next g s = (Pending, g\<lparr>at := Waiting\<rparr>, s)"
    by (auto simp: logs_next_def logs_get_def)
  with n show ?case by simp
next
  case (Cons it its)
  then obtain m where n: "n = Suc m" by (cases n) auto
  let ?s1 = "s\<lparr>log_queues :=
      (log_queues s)(queue_ref g := (log_queues s (queue_ref g))\<lparr>items := its\<rparr>)\<rparr>"
  show ?case
  proof (cases it)
    case None
    let ?g1 = "g\<lparr>at := After_Terminal\<rparr>"
    from None Cons.prems(1,2)
    have nx: "logs_next g s = (Yield (SseData ''agent process exited''), ?g1, ?s1)"
      by (auto simp: logs_next_def logs_get_def Let_def)
    from None Cons.prems(3) n obtain k where m: "m = Suc k" by (cases m) auto
    have "logs_next ?g1 ?s1 = (Stop, g\<lparr>at := Finished\<rparr>, logs_finally (queue_ref g) ?s1)"
      by (simp add: logs_next_def)
    with None nx n m show ?thesis
      by (simp add: logs_finally_subscribers)
  next
    case (Some l)
    let ?g1 = "g\<lparr>at := In_Try\<rparr>"
    from Some Cons.prems(1,2) have nx: "logs_next g s = (Yield (SseData l), ?g1, ?s1)"
      by (auto simp: logs_next_def logs_get_def Let_def)
    have "\<exists>s'. logs_read m ?g1 ?s1 =
           (log_frames its, ?g1\<lparr>at := (if None \<in> set its then Finished else Waiting)\<rparr>, s') \<and>
         log_subscribers s' =
           (if None \<in> set its then remove1 (queue_ref ?g1) (log_subscribers ?s1)
            else log_subscribers ?s1)"
      using Cons.prems(3) n Some by (intro Cons.IH) simp_all
    then obtain s' where s': "logs_read m ?g1 ?s1 =
           (log_frames its, ?g1\<lparr>at := (if None \<in> set its then Finished else Waiting)\<rparr>, s')"
         "log_subscribers s' =
           (if None \<in> set its then remove1 (queue_ref ?g1) (log_subscribers ?s1)
            else log_subscribers ?s1)" by blast
    from Some nx n s' show ?thesis by simp
  qed
qed

lemma logs_read_backlog:
  assumes "at g = In_Backlog rest"
    and "items (log_queues s (queue_ref g)) = its"
    and "length rest + length (log_frames its) < n"
  shows "\<exists>s'. logs_read n g s =
           (map SseData rest @ log_frames its,
            g\<lparr>at := (if None \<in> set its then Finished else Waiting)\<rparr>, s') \<and>
         log_subscribers s' =
           (if None \<in> set its then remove1 (queue_ref g) (log_subscribers s)
            else log_subscribers s)"
  using assms
proof (induction rest arbitrary: g n)
  case Nil
  then show ?case using logs_read_queue[of g s its n] by simp
next
  case (Cons x xs)
  then obtain m where n: "n = Suc m" by (cases n) auto
  let ?g1 = "g\<lparr>at := In_Backlog xs\<rparr>"
  from Cons.prems(1) have nx: "logs_next g s = (Yield (SseData x), ?g1, s)"
    by (simp add: logs_next_def)
  have "\<exists>s'. logs_read m ?g1 s =
           (map SseData xs @ log_frames its,
            ?g1\<lparr>at := (if None \<in> set its then Finished else Waiting)\<rparr>, s') \<and>
         log_subscribers s' =
           (if None \<in> set its then remove1 (queue_ref ?g1) (log_subscribers s)
            else log_subscribers s)"
    using Cons.prems n by (intro Cons.IH) simp_all
  then obtain s' where "logs_read m ?g1 s =
           (map SseData xs @ log_frames its,
            ?g1\<lparr>at := (if None \<in> set its then Finished else Waiting)\<rparr>, s')"
        "log_subscribers s' =
           (if None \<in> set its then remove1 (queue_ref ?g1) (log_subscribers s)
            else log_subscribers s)" by blast
  with nx n show ?case by simp
qed

lemma logs_read_not_started:
  "at g = Not_Started \<Longrightarrow>
     logs_read (Suc n) g s = logs_read (Suc n) (g\<lparr>at := In_Backlog (log_buffer s)\<rparr>) s"
  by (simp add: logs_next_def split: list.splits)

lemma logs_read_subscription:
  assumes "at g = Not_Started"
    and "items (log_queues s (queue_ref g)) = its"
    and "length (log_buffer s) + length (log_frames its) < n"
  shows "\<exists>s'. logs_read n g s =
           (map SseData (log_buffer s) @ log_frames its,
            g\<lparr>at := (if None \<in> set its then Finished else Waiting)\<rparr>, s') \<and>
         log_subscribers s' =
           (if None \<in> set its then remove1 (queue_ref g) (log_subscribers s)
            else log_subscribers s)"
proof -
  from assms(3) obtain m where n: "n = Suc m" by (cases n) auto
  let ?g = "g\<lparr>at := In_Backlog (log_buffer s)\<rparr>"
  have "logs_read n g s = logs_read n ?g s"
    using assms(1) n by (simp only: logs_read_not_started)
  moreover have "\<exists>s'. logs_read n ?g s =
           (map SseData (log_buffer s) @ log_frames its,
            ?g\<lparr>at := (if None \<in> set its then Finished else Waiting)\<rparr>, s') \<and>
         log_subscribers s' =
           (if None \<in> set its then remove1 (queue_ref ?g) (log_subscribers s)
            else log_subscribers s)"
    using assms(2,3) by (intro logs_read_backlog) simp_all
  ultimately show ?thesis by (cases "None \<in> set its") auto
qed

section \<open>Fan-out to bounded queues\<close>

text \<open>
  C5, as amended. \<open>_fan_out\<close> returns at once, with every queue as it was, when the event
  loop is not set or is closed. With an open loop, and a subscriber list that holds no queue
  twice, it appends the item to the queue of every subscriber that is not full; a full
  queue keeps its contents (the item is lost for that subscriber only), and no other queue
  changes. It is a total function: it neither waits nor raises.
\<close>

theorem C5_fan_out:
  "distinct subscribers \<Longrightarrow>
     fan_out lp subscribers payload heap q =
       (if lp = Some Loop_Open \<and> q \<in> set subscribers \<and> \<not> full (heap q)
        then (heap q)\<lparr>items := items (heap q) @ [payload]\<rparr> else heap q)"
  by (rule fan_out_at)

theorem C5_fan_out_witness:
  "distinct [0, 1, 2 :: nat] \<and>
   items (fan_out (Some Loop_Open) [0, 1, 2] ''x''
            ((\<lambda>_. new_queue 2)(1 := \<lparr>maxsize = 2, items = [''a'', ''b'']\<rparr>)) 0) = [''x''] \<and>
   items (fan_out (Some Loop_Open) [0, 1, 2] ''x''
            ((\<lambda>_. new_queue 2)(1 := \<lparr>maxsize = 2, items = [''a'', ''b'']\<rparr>)) 1) = [''a'', ''b''] \<and>
   items (fan_out (Some Loop_Open) [0, 1, 2] ''x''
            ((\<lambda>_. new_queue 2)(1 := \<lparr>maxsize = 2, items = [''a'', ''b'']\<rparr>)) 2) = [''x''] \<and>
   items (fan_out (Some Loop_Open) [0, 1, 2] ''x''
            ((\<lambda>_. new_queue 2)(1 := \<lparr>maxsize = 2, items = [''a'', ''b'']\<rparr>)) 3) = []"
proof -
  let ?h = "(\<lambda>_. new_queue 2)(1 := \<lparr>maxsize = 2, items = [''a'', ''b'']\<rparr>) :: nat \<Rightarrow> string aqueue"
  have d: "distinct [0, 1, 2 :: nat]" by simp
  show ?thesis
    using d C5_fan_out[OF d, of "Some Loop_Open" "''x''" ?h 0]
      C5_fan_out[OF d, of "Some Loop_Open" "''x''" ?h 1]
      C5_fan_out[OF d, of "Some Loop_Open" "''x''" ?h 2]
      C5_fan_out[OF d, of "Some Loop_Open" "''x''" ?h 3]
    by (simp add: new_queue_def full_def)
qed

text \<open>
  The statement of the specification fails when the loop is closed: a registered subscriber whose queue
  is empty is offered a line and its queue stays empty.
\<close>

theorem C5_counterexample:
  "log_subscribers (close_loop (snd (stream_logs (lifespan initial)))) = [0] \<and>
   \<not> full (log_queues (close_loop (snd (stream_logs (lifespan initial)))) 0) \<and>
   items (fan_out (loop (close_loop (snd (stream_logs (lifespan initial)))))
            (log_subscribers (close_loop (snd (stream_logs (lifespan initial)))))
            (Some ''hello'')
            (log_queues (close_loop (snd (stream_logs (lifespan initial))))) 0) = []"
  by (simp add: close_loop_def stream_logs_def lifespan_def initial_def Let_def
      fan_out_def new_queue_def full_def)

section \<open>The two histories\<close>

lemma lines_read_replicate:
  "raw \<noteq> [] \<Longrightarrow> rstrip raw \<noteq> [] \<Longrightarrow>
     lines_read (replicate n raw) = replicate n (rstrip raw)"
  by (induction n) simp_all

lemma events_of_replicate:
  "line_parser l = Some ev \<Longrightarrow> events_of (replicate n l) = replicate n ev"
  by (induction n) (simp_all add: events_of_def List.map_filter_def)

lemma reachable_log_buffer_bound: "reachable s \<Longrightarrow> length (log_buffer s) \<le> 500"
  using reachable_invariant by (simp add: invariant_def)

lemma rstrip_user_a:
  "rstrip (''TRANSCRIPT_USER: a'' @ [CHR 0x0A]) = ''TRANSCRIPT_USER: a''"
  by (simp add: rstrip_def isspace_def whitespace_def)

lemma line_parser_user_a:
  "line_parser ''TRANSCRIPT_USER: a'' = Some (transcript_event ''user'' ''a'')"
  by (simp add: line_parser_def py_in_def strip_def lstrip_def rstrip_def isspace_def
      whitespace_def)

text \<open>
  C1. The log history is cut back to its last 500 lines after every append, but nothing
  ever shortens the events history: after 501 transcript lines of the worker the log
  history holds 500 lines and the events history 501 events, more than the 200 of the
  specification.
\<close>

theorem C1_events_history_exceeds_200:
  "\<exists>s. reader_loop (replicate 501 (''TRANSCRIPT_USER: a'' @ [CHR 0x0A])) initial = Inr s \<and>
       length (log_buffer s) = 500 \<and> length (tx_buffer s) = 501"
proof -
  let ?raw = "''TRANSCRIPT_USER: a'' @ [CHR 0x0A]"
  let ?s = "fold publish (lines_read (replicate 501 ?raw)) initial"
  have "?raw \<noteq> []" by simp
  moreover have "rstrip ?raw \<noteq> []" unfolding rstrip_user_a by simp
  ultimately have "lines_read (replicate 501 ?raw) = replicate 501 (rstrip ?raw)"
    by (rule lines_read_replicate)
  then have ls: "lines_read (replicate 501 ?raw) = replicate 501 ''TRANSCRIPT_USER: a''"
    unfolding rstrip_user_a .
  have "length (log_buffer initial) \<le> 500" by (simp add: initial_def)
  then have "log_buffer ?s = last_n 500 (log_buffer initial @ replicate 501 ''TRANSCRIPT_USER: a'')"
    by (simp only: log_buffer_fold_publish ls)
  then have l: "length (log_buffer ?s) = 500"
    by (simp add: length_last_n initial_def)
  have "tx_buffer ?s = tx_buffer initial @
      filter is_transcript (events_of (replicate 501 ''TRANSCRIPT_USER: a''))"
    by (simp only: tx_buffer_fold_publish ls)
  then have t: "length (tx_buffer ?s) = 501"
    by (simp add: events_of_replicate[OF line_parser_user_a] initial_def)
  from l t show ?thesis by (simp only: reader_loop_publish) blast
qed

section \<open>Leaving a stream\<close>

lemma logs_close_in_try:
  assumes "at g = In_Try \<or> at g = Waiting \<or> at g = After_Terminal"
    and "distinct (log_subscribers s)"
  shows "at (fst (logs_close g s)) = Finished \<and>
         queue_ref g \<notin> set (log_subscribers (snd (logs_close g s)))"
  using assms by (auto simp: logs_close_def logs_finally_subscribers)

lemma events_close_in_try:
  assumes "at g = In_Try \<or> at g = Waiting \<or> at g = After_Terminal"
    and "distinct (tx_subscribers s)"
  shows "at (fst (events_close g s)) = Finished \<and>
         queue_ref g \<notin> set (tx_subscribers (snd (events_close g s)))"
  using assms by (auto simp: events_close_def events_finally_subscribers)

lemma logs_close_in_backlog:
  "at g = In_Backlog rest \<Longrightarrow> logs_close g s = (g\<lparr>at := Finished\<rparr>, s)"
  by (simp add: logs_close_def)

lemma events_close_in_backlog:
  "at g = In_Backlog rest \<Longrightarrow> events_close g s = (g\<lparr>at := Finished\<rparr>, s)"
  by (simp add: events_close_def)

text \<open>
  C9. The \<open>finally\<close> clause that removes the queue from the subscriber list covers the
  \<open>while\<close> loop only; the loop that replays the history runs before the \<open>try\<close>. A log stream
  opened on a history of one line, read for its first frame and then closed, ends with its
  queue still in \<open>log_subscribers\<close>; the same holds for an events stream.
\<close>

theorem C9_closed_in_backlog_stays_registered:
  "(let s = publish ''hello'' (lifespan initial);
        (g, s1) = stream_logs s;
        (out, g1, s2) = logs_next g s1;
        (g2, s3) = logs_close g1 s2
    in reader_body ''hello'' (lifespan initial) = Inr s \<and> out = Yield (SseData ''hello'') \<and>
       at g2 = Finished \<and> queue_ref g2 \<in> set (log_subscribers s3)) \<and>
   (let s = publish ''TRANSCRIPT_USER: hi'' (lifespan initial);
        (h, s1) = stream_events s;
        (out, h1, s2) = events_next h s1;
        (h2, s3) = events_close h1 s2
    in reader_body ''TRANSCRIPT_USER: hi'' (lifespan initial) = Inr s \<and>
       out = Yield (SseJson (transcript_event ''user'' ''hi'')) \<and>
       at h2 = Finished \<and> queue_ref h2 \<in> set (tx_subscribers s3))"
proof -
  have r1: "rstrip ''hello'' = ''hello''"
    by (simp add: rstrip_def isspace_def whitespace_def)
  have r2: "rstrip ''TRANSCRIPT_USER: hi'' = ''TRANSCRIPT_USER: hi''"
    by (simp add: rstrip_def isspace_def whitespace_def)
  have b1: "reader_body ''hello'' (lifespan initial) = Inr (publish ''hello'' (lifespan initial))"
    using reader_body_publish[of "''hello''" "lifespan initial"] by (simp add: r1)
  have b2: "reader_body ''TRANSCRIPT_USER: hi'' (lifespan initial) =
      Inr (publish ''TRANSCRIPT_USER: hi'' (lifespan initial))"
    using reader_body_publish[of "''TRANSCRIPT_USER: hi''" "lifespan initial"] by (simp add: r2)
  have p: "line_parser ''TRANSCRIPT_USER: hi'' = Some (transcript_event ''user'' ''hi'')"
    by (simp add: line_parser_def py_in_def strip_def lstrip_def rstrip_def isspace_def
        whitespace_def)
  have l: "log_buffer (publish ''hello'' (lifespan initial)) = [''hello'']"
    by (simp add: publish_def lifespan_def initial_def last_n_def)
  have t: "tx_buffer (publish ''TRANSCRIPT_USER: hi'' (lifespan initial)) =
      [transcript_event ''user'' ''hi'']"
    by (simp add: publish_def lifespan_def initial_def events_of_single p)
  have A: "(let s = publish ''hello'' (lifespan initial);
        (g, s1) = stream_logs s;
        (out, g1, s2) = logs_next g s1;
        (g2, s3) = logs_close g1 s2
    in reader_body ''hello'' (lifespan initial) = Inr s \<and> out = Yield (SseData ''hello'') \<and>
       at g2 = Finished \<and> queue_ref g2 \<in> set (log_subscribers s3))"
    by (simp add: b1 l stream_logs_def logs_next_def logs_close_def Let_def)
  have B: "(let s = publish ''TRANSCRIPT_USER: hi'' (lifespan initial);
        (h, s1) = stream_events s;
        (out, h1, s2) = events_next h s1;
        (h2, s3) = events_close h1 s2
    in reader_body ''TRANSCRIPT_USER: hi'' (lifespan initial) = Inr s \<and>
       out = Yield (SseJson (transcript_event ''user'' ''hi'')) \<and>
       at h2 = Finished \<and> queue_ref h2 \<in> set (tx_subscribers s3))"
    by (simp add: b2 t stream_events_def events_next_def events_close_def Let_def)
  from A B show ?thesis by (rule conjI)
qed

section \<open>State events and the events history\<close>

lemma line_parser_Nil: "line_parser [] = None"
  by (simp add: line_parser_def py_in_def)

lemma is_transcript_not_state: "is_transcript ev \<Longrightarrow> \<not> is_state ev"
  by (simp add: is_transcript_def is_state_def)

lemma reader_exit_tx_buffer: "tx_buffer (reader_exit s) = tx_buffer s"
  by (simp add: reader_exit_def Let_def)

lemma reader_exit_tx_queues:
  "tx_queues (reader_exit s) =
     fan_out (loop s) (tx_subscribers s) (state_event ''stopped'') (tx_queues s)"
  by (simp add: reader_exit_def Let_def)


lemma reader_exit_unchanged [simp]:
  "loop (reader_exit s) = loop s"
  "log_subscribers (reader_exit s) = log_subscribers s"
  "tx_subscribers (reader_exit s) = tx_subscribers s"
  "log_buffer (reader_exit s) = log_buffer s"
  by (simp_all add: reader_exit_def Let_def)

lemma stream_events_fresh:
  "stream_events s = (g, s1) \<Longrightarrow>
     at g = Not_Started \<and> queue_ref g = next_ref s \<and> tx_buffer s1 = tx_buffer s \<and>
     tx_queues s1 (queue_ref g) = new_queue 200 \<and>
     tx_subscribers s1 = tx_subscribers s @ [next_ref s] \<and> loop s1 = loop s \<and>
     log_buffer s1 = log_buffer s \<and> log_subscribers s1 = log_subscribers s \<and>
     log_queues s1 = log_queues s"
  by (auto simp: stream_events_def Let_def)

lemma stream_logs_fresh:
  "stream_logs s = (g, s1) \<Longrightarrow>
     at g = Not_Started \<and> queue_ref g = next_ref s \<and> log_buffer s1 = log_buffer s \<and>
     log_queues s1 (queue_ref g) = new_queue 500 \<and>
     log_subscribers s1 = log_subscribers s @ [next_ref s] \<and> loop s1 = loop s \<and>
     tx_buffer s1 = tx_buffer s \<and> tx_subscribers s1 = tx_subscribers s \<and>
     tx_queues s1 = tx_queues s"
  by (auto simp: stream_logs_def Let_def)

lemma events_backlog_only:
  "fst (events_read (Suc (length (tx_buffer s))) (fst (stream_events s)) (snd (stream_events s)))
     = map SseJson (tx_buffer s)"
proof -
  obtain g s1 where gs: "stream_events s = (g, s1)" by (cases "stream_events s")
  note f = stream_events_fresh[OF gs]
  from f have 1: "at g = Not_Started" and 2: "items (tx_queues s1 (queue_ref g)) = []"
    and 3: "length (tx_buffer s1) + length (upto_stopped []) < Suc (length (tx_buffer s))"
    by (auto simp: new_queue_def)
  from events_read_subscription[OF 1 2 3] f gs show ?thesis by auto
qed

text \<open>
  C10. In every reachable state the events history holds transcript events only. A line
  that stands for a state event is offered to the subscribers of that moment and leaves the
  history as it is, and so does the terminal event at the end of the worker's output. A
  client that subscribes later is therefore replayed the transcript events of the history
  and no state event.
\<close>

theorem C10_no_state_event_in_history:
  assumes "reachable s"
  shows "(\<forall>ev\<in>set (tx_buffer s). is_transcript ev \<and> \<not> is_state ev) \<and>
    (line_parser (rstrip raw) = Some ev \<and> is_state ev \<longrightarrow>
       (\<exists>s'. reader_body raw s = Inr s' \<and> tx_buffer s' = tx_buffer s \<and>
          tx_queues s' = fan_out (loop s) (tx_subscribers s) ev (tx_queues s))) \<and>
    tx_buffer (reader_exit s) = tx_buffer s \<and>
    tx_queues (reader_exit s) =
      fan_out (loop s) (tx_subscribers s) (state_event ''stopped'') (tx_queues s) \<and>
    fst (events_read (Suc (length (tx_buffer s))) (fst (stream_events s))
           (snd (stream_events s))) = map SseJson (tx_buffer s)"
proof -
  from assms have "invariant s" by (rule reachable_invariant)
  then have a: "\<forall>ev\<in>set (tx_buffer s). is_transcript ev \<and> \<not> is_state ev"
    by (auto simp: invariant_def is_transcript_not_state)
  have b: "line_parser (rstrip raw) = Some ev \<and> is_state ev \<longrightarrow>
       (\<exists>s'. reader_body raw s = Inr s' \<and> tx_buffer s' = tx_buffer s \<and>
          tx_queues s' = fan_out (loop s) (tx_subscribers s) ev (tx_queues s))"
  proof
    assume h: "line_parser (rstrip raw) = Some ev \<and> is_state ev"
    then have "rstrip raw \<noteq> []" by (auto simp: line_parser_Nil)
    then have "reader_body raw s = Inr (publish (rstrip raw) s)"
      by (rule reader_body_publish)
    moreover from h have "tx_buffer (publish (rstrip raw) s) = tx_buffer s"
      by (auto simp: publish_def events_of_single is_transcript_def is_state_def)
    moreover from h have "tx_queues (publish (rstrip raw) s) =
        fan_out (loop s) (tx_subscribers s) ev (tx_queues s)"
      by (simp add: publish_def)
    ultimately show "\<exists>s'. reader_body raw s = Inr s' \<and> tx_buffer s' = tx_buffer s \<and>
          tx_queues s' = fan_out (loop s) (tx_subscribers s) ev (tx_queues s)" by simp
  qed
  from a b show ?thesis
    by (simp only: reader_exit_tx_buffer reader_exit_tx_queues events_backlog_only)
qed

lemma rstrip_no_trailing_space:
  "s \<noteq> [] \<Longrightarrow> \<not> isspace (last s) \<Longrightarrow> rstrip s = s"
  using rstrip_append_space[of "[]" s] by simp

lemma reachable_publish:
  assumes "reachable s" and "l \<noteq> []" and "\<not> isspace (last l)"
  shows "reachable (publish l s)"
proof -
  from assms(2,3) have "rstrip l = l" by (rule rstrip_no_trailing_space)
  with assms(2) have "reader_body l s = Inr (publish l s)"
    using reader_body_publish[of l s] by simp
  with assms(1) show ?thesis by (rule r_line)
qed

theorem C10_no_state_event_in_history_witness:
  "reachable (publish ''TRANSCRIPT_USER: hi'' (publish ''AGENT_STATE: active'' (lifespan initial))) \<and>
   tx_buffer (publish ''TRANSCRIPT_USER: hi'' (publish ''AGENT_STATE: active'' (lifespan initial)))
     = [transcript_event ''user'' ''hi''] \<and>
   (\<exists>s'. reader_body ''AGENT_STATE: speaking''
            (publish ''TRANSCRIPT_USER: hi'' (publish ''AGENT_STATE: active'' (lifespan initial)))
            = Inr s' \<and>
         tx_buffer s' = [transcript_event ''user'' ''hi'']) \<and>
   tx_buffer (reader_exit
       (publish ''TRANSCRIPT_USER: hi'' (publish ''AGENT_STATE: active'' (lifespan initial))))
     = [transcript_event ''user'' ''hi''] \<and>
   fst (events_read 2
         (fst (stream_events
            (publish ''TRANSCRIPT_USER: hi'' (publish ''AGENT_STATE: active'' (lifespan initial)))))
         (snd (stream_events
            (publish ''TRANSCRIPT_USER: hi'' (publish ''AGENT_STATE: active'' (lifespan initial))))))
     = [SseJson (transcript_event ''user'' ''hi'')]"
proof -
  let ?a = "publish ''AGENT_STATE: active'' (lifespan initial)"
  let ?s = "publish ''TRANSCRIPT_USER: hi'' ?a"
  have sp: "\<not> isspace CHR ''e''" "\<not> isspace CHR ''i''" "\<not> isspace CHR ''g''"
    by (simp_all add: isspace_def whitespace_def)
  have "reachable (lifespan initial)" by (intro r_lifespan r_initial)
  then have "reachable ?a" by (rule reachable_publish) (simp_all add: sp)
  then have r: "reachable ?s" by (rule reachable_publish) (simp_all add: sp)
  have p1: "line_parser ''AGENT_STATE: active'' = Some (state_event ''active'')"
    by (simp add: line_parser_def py_in_def strip_def lstrip_def rstrip_def isspace_def
        whitespace_def)
  have p2: "line_parser ''TRANSCRIPT_USER: hi'' = Some (transcript_event ''user'' ''hi'')"
    by (simp add: line_parser_def py_in_def strip_def lstrip_def rstrip_def isspace_def
        whitespace_def)
  have p3: "line_parser (rstrip ''AGENT_STATE: speaking'') = Some (state_event ''speaking'')"
    by (simp add: line_parser_def py_in_def strip_def lstrip_def rstrip_def isspace_def
        whitespace_def)
  have tb: "tx_buffer ?s = [transcript_event ''user'' ''hi'']"
    by (simp add: tx_buffer_publish events_of_single p1 p2 lifespan_def initial_def)
  note c = C10_no_state_event_in_history[OF r, of "''AGENT_STATE: speaking''"
      "state_event ''speaking''"]
  from c[THEN conjunct2, THEN conjunct1] p3
  have b: "\<exists>s'. reader_body ''AGENT_STATE: speaking'' ?s = Inr s' \<and>
      tx_buffer s' = [transcript_event ''user'' ''hi'']"
    unfolding tb by auto
  have x: "tx_buffer (reader_exit ?s) = [transcript_event ''user'' ''hi'']"
    using c[THEN conjunct2, THEN conjunct2, THEN conjunct1] unfolding tb .
  have n: "Suc (length [transcript_event ''user'' ''hi'']) = 2" by simp
  have e: "fst (events_read 2 (fst (stream_events ?s)) (snd (stream_events ?s)))
      = [SseJson (transcript_event ''user'' ''hi'')]"
    using c[THEN conjunct2, THEN conjunct2, THEN conjunct2, THEN conjunct2]
    unfolding tb n by simp
  from r tb b x e show ?thesis by (intro conjI)
qed

section \<open>Lines that produce nothing\<close>

lemma publish_empty_payload:
  assumes "line_parser line = None"
  shows "tx_buffer (publish line s) = tx_buffer s \<and> tx_queues (publish line s) = tx_queues s"
  using assms by (simp add: publish_def events_of_single)

lemma strip_Nil [simp]: "strip [] = []"
  by (simp add: strip_def lstrip_def rstrip_def)

lemma marker_alone:
  assumes "marker = ''TRANSCRIPT_USER:'' \<or> marker = ''TRANSCRIPT_AGENT:''"
    and "\<forall>c\<in>set ws. isspace c"
  shows "rstrip (marker @ ws) = marker \<and> line_parser marker = None"
proof -
  have c: "\<not> isspace CHR '':''" by (simp add: isspace_def whitespace_def)
  from assms(1) have "marker \<noteq> []" and "\<not> isspace (last marker)"
    using c by auto
  with assms(2) have r: "rstrip (marker @ ws) = marker"
    by (intro rstrip_append_space)
  have "remainder marker marker = []" "py_in marker marker"
    using remainder_prefix[of marker "[]"] py_in_prefix[of marker "[]"] by simp_all
  moreover have "\<not> py_in ''TRANSCRIPT_USER:'' ''TRANSCRIPT_AGENT:''"
    by (simp add: py_in_def)
  ultimately have "line_parser marker = None"
    using assms(1) by (auto simp: line_parser_def)
  with r show ?thesis ..
qed

text \<open>
  C8. A value of \<open>readline\<close> that is all whitespace leaves the state as it is: no line joins a
  history, nothing is offered to a subscriber. A line whose deciding marker is a transcript
  marker with nothing but whitespace after it produces no event: the events history and
  the queues of the events subscribers stay as they are. This holds in particular for a
  line that is a transcript marker followed by whitespace only.
\<close>

theorem C8_blank_lines_and_empty_payloads:
  "((\<forall>c\<in>set raw. isspace c) \<longrightarrow> reader_body raw s = Inr s) \<and>
   (py_in ''TRANSCRIPT_USER:'' (rstrip raw) \<and>
      strip (remainder ''TRANSCRIPT_USER:'' (rstrip raw)) = [] \<or>
    \<not> py_in ''TRANSCRIPT_USER:'' (rstrip raw) \<and> py_in ''TRANSCRIPT_AGENT:'' (rstrip raw) \<and>
      strip (remainder ''TRANSCRIPT_AGENT:'' (rstrip raw)) = [] \<longrightarrow>
      (\<exists>s'. reader_body raw s = Inr s' \<and> tx_buffer s' = tx_buffer s \<and>
         tx_queues s' = tx_queues s)) \<and>
   ((marker = ''TRANSCRIPT_USER:'' \<or> marker = ''TRANSCRIPT_AGENT:'') \<and>
      (\<forall>c\<in>set ws. isspace c) \<longrightarrow>
      (\<exists>s'. reader_body (marker @ ws) s = Inr s' \<and> tx_buffer s' = tx_buffer s \<and>
         tx_queues s' = tx_queues s))"
proof (intro conjI impI)
  assume "\<forall>c\<in>set raw. isspace c"
  then have "rstrip raw = []" by (simp add: rstrip_Nil_iff)
  then show "reader_body raw s = Inr s" by (rule reader_body_blank)
next
  assume h: "py_in ''TRANSCRIPT_USER:'' (rstrip raw) \<and>
      strip (remainder ''TRANSCRIPT_USER:'' (rstrip raw)) = [] \<or>
    \<not> py_in ''TRANSCRIPT_USER:'' (rstrip raw) \<and> py_in ''TRANSCRIPT_AGENT:'' (rstrip raw) \<and>
      strip (remainder ''TRANSCRIPT_AGENT:'' (rstrip raw)) = []"
  then have "rstrip raw \<noteq> []" by (auto simp: py_in_def)
  then have "reader_body raw s = Inr (publish (rstrip raw) s)"
    by (rule reader_body_publish)
  moreover from h have "line_parser (rstrip raw) = None"
    by (auto simp: line_parser_def)
  ultimately show "\<exists>s'. reader_body raw s = Inr s' \<and> tx_buffer s' = tx_buffer s \<and>
      tx_queues s' = tx_queues s"
    by (simp add: publish_empty_payload)
next
  assume "(marker = ''TRANSCRIPT_USER:'' \<or> marker = ''TRANSCRIPT_AGENT:'') \<and>
      (\<forall>c\<in>set ws. isspace c)"
  then have m: "rstrip (marker @ ws) = marker" "line_parser marker = None" "marker \<noteq> []"
    using marker_alone[of marker ws] by auto
  then have "reader_body (marker @ ws) s = Inr (publish marker s)"
    using reader_body_publish[of "marker @ ws" s] by simp
  with m(2) show "\<exists>s'. reader_body (marker @ ws) s = Inr s' \<and> tx_buffer s' = tx_buffer s \<and>
      tx_queues s' = tx_queues s"
    by (simp add: publish_empty_payload)
qed

theorem C8_blank_lines_and_empty_payloads_witness:
  "reader_body [CHR 0x20, CHR 0x09, CHR 0x0A] (snd (stream_events (lifespan initial)))
     = Inr (snd (stream_events (lifespan initial))) \<and>
   (\<exists>s'. reader_body (''INFO TRANSCRIPT_AGENT:'' @ [CHR 0x20, CHR 0x0A])
            (snd (stream_events (lifespan initial))) = Inr s' \<and>
         tx_buffer s' = [] \<and> items (tx_queues s' 0) = []) \<and>
   (\<exists>s'. reader_body (''TRANSCRIPT_USER:'' @ [CHR 0x20, CHR 0x0A])
            (snd (stream_events (lifespan initial))) = Inr s' \<and>
         tx_buffer s' = [] \<and> items (tx_queues s' 0) = [])"
proof -
  let ?s = "snd (stream_events (lifespan initial))"
  let ?blank = "[CHR 0x20, CHR 0x09, CHR 0x0A]"
  let ?info = "''INFO TRANSCRIPT_AGENT:'' @ [CHR 0x20, CHR 0x0A]"
  let ?ws = "[CHR 0x20, CHR 0x0A]"
  have s: "tx_buffer ?s = []" "items (tx_queues ?s 0) = []"
    by (simp_all add: stream_events_def lifespan_def initial_def Let_def new_queue_def)
  have w: "\<forall>c\<in>set ?blank. isspace c" "\<forall>c\<in>set ?ws. isspace c"
    by (simp_all add: isspace_def whitespace_def)
  have r: "rstrip ?info = ''INFO TRANSCRIPT_AGENT:''"
    by (simp add: rstrip_def isspace_def whitespace_def)
  have i: "\<not> py_in ''TRANSCRIPT_USER:'' (rstrip ?info) \<and> py_in ''TRANSCRIPT_AGENT:'' (rstrip ?info) \<and>
      strip (remainder ''TRANSCRIPT_AGENT:'' (rstrip ?info)) = []"
    unfolding r by (simp add: py_in_def)
  note c1 = C8_blank_lines_and_empty_payloads[of ?blank ?s "''TRANSCRIPT_USER:''" ?ws]
  note c2 = C8_blank_lines_and_empty_payloads[of ?info ?s "''TRANSCRIPT_USER:''" ?ws]
  from c1 w(1) have A: "reader_body ?blank ?s = Inr ?s" by blast
  from c2 i have "\<exists>s'. reader_body ?info ?s = Inr s' \<and> tx_buffer s' = tx_buffer ?s \<and>
      tx_queues s' = tx_queues ?s" by blast
  then have B: "\<exists>s'. reader_body ?info ?s = Inr s' \<and> tx_buffer s' = [] \<and>
      items (tx_queues s' 0) = []"
    using s by auto
  from c1 w(2) have "\<exists>s'. reader_body (''TRANSCRIPT_USER:'' @ ?ws) ?s = Inr s' \<and>
      tx_buffer s' = tx_buffer ?s \<and> tx_queues s' = tx_queues ?s" by blast
  then have C: "\<exists>s'. reader_body (''TRANSCRIPT_USER:'' @ ?ws) ?s = Inr s' \<and> tx_buffer s' = [] \<and>
      items (tx_queues s' 0) = []"
    using s by auto
  from A B C show ?thesis by (intro conjI)
qed

section \<open>Classification of a line\<close>

lemma reader_body_total: "\<exists>s'. reader_body raw s = Inr s'"
  by (cases "rstrip raw = []") (simp_all add: reader_body_blank reader_body_publish)

lemma remainder_leftmost:
  assumes "marker \<noteq> []" and "\<not> py_in marker (pre @ butlast marker)"
  shows "remainder marker (pre @ marker @ rest) = rest"
  using assms(2)
proof (induction pre)
  case Nil
  show ?case using remainder_prefix[of marker rest] by simp
next
  case (Cons c pre)
  have "\<not> startswith ((c # pre) @ marker @ rest) marker"
  proof
    assume "startswith ((c # pre) @ marker @ rest) marker"
    then obtain r where r: "(c # pre) @ marker @ rest = marker @ r"
      by (auto simp: startswith_iff)
    have "length marker \<le> length ((c # pre) @ butlast marker)"
      using assms(1) by (cases marker rule: rev_cases) auto
    then have "take (length marker) ((c # pre) @ butlast marker) = marker"
      using r assms(1)
      by (metis append_eq_conv_conj append.assoc append_butlast_last_id take_append take_all_iff
          append_eq_append_conv_if)
    then have "(c # pre) @ butlast marker =
        [] @ marker @ drop (length marker) ((c # pre) @ butlast marker)"
      by (metis append_Nil append_take_drop_id)
    then have "py_in marker ((c # pre) @ butlast marker)"
      unfolding py_in_iff by blast
    with Cons.prems show False by simp
  qed
  moreover have "\<not> py_in marker (pre @ butlast marker)"
  proof
    assume "py_in marker (pre @ butlast marker)"
    then obtain a b where "pre @ butlast marker = a @ marker @ b"
      unfolding py_in_iff by blast
    then have "(c # pre) @ butlast marker = (c # a) @ marker @ b" by simp
    then have "py_in marker ((c # pre) @ butlast marker)"
      unfolding py_in_iff by blast
    with Cons.prems show False by simp
  qed
  ultimately show ?case using Cons.IH by simp
qed

lemma line_parser_user:
  assumes "\<not> py_in ''TRANSCRIPT_USER:'' (pre @ ''TRANSCRIPT_USER'')"
  shows "line_parser (pre @ ''TRANSCRIPT_USER:'' @ rest) =
     (if strip rest = [] then None else Some (transcript_event ''user'' (strip rest)))"
proof -
  have "remainder ''TRANSCRIPT_USER:'' (pre @ ''TRANSCRIPT_USER:'' @ rest) = rest"
    using assms by (intro remainder_leftmost) simp_all
  moreover have "py_in ''TRANSCRIPT_USER:'' (pre @ ''TRANSCRIPT_USER:'' @ rest)"
    unfolding py_in_iff by blast
  ultimately show ?thesis by (simp add: line_parser_def)
qed

lemma line_parser_agent:
  assumes "\<not> py_in ''TRANSCRIPT_USER:'' (pre @ ''TRANSCRIPT_AGENT:'' @ rest)"
    and "\<not> py_in ''TRANSCRIPT_AGENT:'' (pre @ ''TRANSCRIPT_AGENT'')"
  shows "line_parser (pre @ ''TRANSCRIPT_AGENT:'' @ rest) =
     (if strip rest = [] then None else Some (transcript_event ''agent'' (strip rest)))"
proof -
  have "remainder ''TRANSCRIPT_AGENT:'' (pre @ ''TRANSCRIPT_AGENT:'' @ rest) = rest"
    using assms(2) by (intro remainder_leftmost) simp_all
  moreover have "py_in ''TRANSCRIPT_AGENT:'' (pre @ ''TRANSCRIPT_AGENT:'' @ rest)"
    unfolding py_in_iff by blast
  ultimately show ?thesis using assms(1) by (simp add: line_parser_def)
qed

lemma line_parser_state:
  assumes "\<not> py_in ''TRANSCRIPT_USER:'' (pre @ ''AGENT_STATE:'' @ rest)"
    and "\<not> py_in ''TRANSCRIPT_AGENT:'' (pre @ ''AGENT_STATE:'' @ rest)"
    and "\<not> py_in ''AGENT_STATE:'' (pre @ ''AGENT_STATE'')"
  shows "line_parser (pre @ ''AGENT_STATE:'' @ rest) = Some (state_event (strip rest))"
proof -
  have "remainder ''AGENT_STATE:'' (pre @ ''AGENT_STATE:'' @ rest) = rest"
    using assms(3) by (intro remainder_leftmost) simp_all
  moreover have "py_in ''AGENT_STATE:'' (pre @ ''AGENT_STATE:'' @ rest)"
    unfolding py_in_iff by blast
  ultimately show ?thesis using assms(1,2) by (simp add: line_parser_def)
qed

lemma line_parser_plain:
  assumes "\<not> py_in ''TRANSCRIPT_USER:'' line" and "\<not> py_in ''TRANSCRIPT_AGENT:'' line"
    and "\<not> py_in ''AGENT_STATE:'' line"
  shows "line_parser line = None"
  using assms by (simp add: line_parser_def)

text \<open>
  C2, as amended. The reader never fails on a value of \<open>readline\<close>. A line that is not
  empty after stripping joins the log history (of which the last 500 lines are kept) and is
  offered verbatim to every log subscriber, whatever it holds. Its event is decided by the
  markers it contains, anywhere in the line, the first of these tests that holds winning:
  it contains \<open>TRANSCRIPT_USER:\<close>: a user transcript event whose text is what follows the
  leftmost occurrence of that marker, trimmed, and no event when that text is empty;
  it contains \<open>TRANSCRIPT_AGENT:\<close>: an agent transcript event, likewise;
  it contains \<open>AGENT_STATE:\<close>: a state event whose label is what follows the leftmost
  occurrence, trimmed;
  otherwise no event. The event is offered once to every events subscriber, and a
  transcript event joins the events history.
\<close>

theorem C2_reader_classifies_by_contained_marker:
  "(\<exists>s'. reader_body raw s = Inr s') \<and>
   (rstrip raw = line \<and> line \<noteq> [] \<longrightarrow>
      (\<exists>s'. reader_body raw s = Inr s' \<and>
         log_buffer s' = last_n 500 (log_buffer s @ [line]) \<and>
         log_queues s' = fan_out (loop s) (log_subscribers s) (Some line) (log_queues s) \<and>
         tx_buffer s' = tx_buffer s @ filter is_transcript (events_of [line]) \<and>
         tx_queues s' =
           (case line_parser line of
              None \<Rightarrow> tx_queues s
            | Some ev \<Rightarrow> fan_out (loop s) (tx_subscribers s) ev (tx_queues s)))) \<and>
   (line = pre @ ''TRANSCRIPT_USER:'' @ rest \<and>
      \<not> py_in ''TRANSCRIPT_USER:'' (pre @ ''TRANSCRIPT_USER'') \<longrightarrow>
      line_parser line =
        (if strip rest = [] then None else Some (transcript_event ''user'' (strip rest)))) \<and>
   (line = pre @ ''TRANSCRIPT_AGENT:'' @ rest \<and> \<not> py_in ''TRANSCRIPT_USER:'' line \<and>
      \<not> py_in ''TRANSCRIPT_AGENT:'' (pre @ ''TRANSCRIPT_AGENT'') \<longrightarrow>
      line_parser line =
        (if strip rest = [] then None else Some (transcript_event ''agent'' (strip rest)))) \<and>
   (line = pre @ ''AGENT_STATE:'' @ rest \<and> \<not> py_in ''TRANSCRIPT_USER:'' line \<and>
      \<not> py_in ''TRANSCRIPT_AGENT:'' line \<and> \<not> py_in ''AGENT_STATE:'' (pre @ ''AGENT_STATE'') \<longrightarrow>
      line_parser line = Some (state_event (strip rest))) \<and>
   (\<not> py_in ''TRANSCRIPT_USER:'' line \<and> \<not> py_in ''TRANSCRIPT_AGENT:'' line \<and>
      \<not> py_in ''AGENT_STATE:'' line \<longrightarrow>
      line_parser line = None)"
proof (intro conjI impI)
  show "\<exists>s'. reader_body raw s = Inr s'" by (rule reader_body_total)
next
  assume "rstrip raw = line \<and> line \<noteq> []"
  then have "reader_body raw s = Inr (publish line s)"
    using reader_body_publish[of raw s] by auto
  then show "\<exists>s'. reader_body raw s = Inr s' \<and>
         log_buffer s' = last_n 500 (log_buffer s @ [line]) \<and>
         log_queues s' = fan_out (loop s) (log_subscribers s) (Some line) (log_queues s) \<and>
         tx_buffer s' = tx_buffer s @ filter is_transcript (events_of [line]) \<and>
         tx_queues s' =
           (case line_parser line of
              None \<Rightarrow> tx_queues s
            | Some ev \<Rightarrow> fan_out (loop s) (tx_subscribers s) ev (tx_queues s))"
    by (simp add: publish_def)
next
  assume "line = pre @ ''TRANSCRIPT_USER:'' @ rest \<and>
      \<not> py_in ''TRANSCRIPT_USER:'' (pre @ ''TRANSCRIPT_USER'')"
  then show "line_parser line =
        (if strip rest = [] then None else Some (transcript_event ''user'' (strip rest)))"
    using line_parser_user[of pre rest] by blast
next
  assume "line = pre @ ''TRANSCRIPT_AGENT:'' @ rest \<and> \<not> py_in ''TRANSCRIPT_USER:'' line \<and>
      \<not> py_in ''TRANSCRIPT_AGENT:'' (pre @ ''TRANSCRIPT_AGENT'')"
  then show "line_parser line =
        (if strip rest = [] then None else Some (transcript_event ''agent'' (strip rest)))"
    using line_parser_agent[of pre rest] by blast
next
  assume "line = pre @ ''AGENT_STATE:'' @ rest \<and> \<not> py_in ''TRANSCRIPT_USER:'' line \<and>
      \<not> py_in ''TRANSCRIPT_AGENT:'' line \<and> \<not> py_in ''AGENT_STATE:'' (pre @ ''AGENT_STATE'')"
  then show "line_parser line = Some (state_event (strip rest))"
    using line_parser_state[of pre rest] by blast
next
  assume "\<not> py_in ''TRANSCRIPT_USER:'' line \<and> \<not> py_in ''TRANSCRIPT_AGENT:'' line \<and>
      \<not> py_in ''AGENT_STATE:'' line"
  then show "line_parser line = None"
    using line_parser_plain[of line] by blast
qed

lemmas string_eval =
  line_parser_def py_in_def strip_def lstrip_def rstrip_def isspace_def whitespace_def

theorem C2_reader_classifies_by_contained_marker_witness:
  "(\<exists>s'. reader_body (''TRANSCRIPT_USER: hello'' @ [CHR 0x0A])
            (snd (stream_events (snd (stream_logs (lifespan initial))))) = Inr s' \<and>
      log_buffer s' = [''TRANSCRIPT_USER: hello''] \<and>
      items (log_queues s' 0) = [Some ''TRANSCRIPT_USER: hello''] \<and>
      tx_buffer s' = [transcript_event ''user'' ''hello''] \<and>
      items (tx_queues s' 1) = [transcript_event ''user'' ''hello'']) \<and>
   line_parser ''TRANSCRIPT_AGENT: hi there'' = Some (transcript_event ''agent'' ''hi there'') \<and>
   line_parser ''INFO AGENT_STATE: listening'' = Some (state_event ''listening'') \<and>
   line_parser ''Connecting to room'' = None"
proof -
  let ?s = "snd (stream_events (snd (stream_logs (lifespan initial))))"
  let ?raw = "''TRANSCRIPT_USER: hello'' @ [CHR 0x0A]"
  let ?line = "''TRANSCRIPT_USER: hello''"
  have st: "strip '' hello'' = ''hello''" "strip '' hi there'' = ''hi there''"
    "strip '' listening'' = ''listening''"
    by (simp_all add: strip_def lstrip_def rstrip_def isspace_def whitespace_def)
  have r: "rstrip ?raw = ?line \<and> ?line \<noteq> []"
    by (simp add: rstrip_def isspace_def whitespace_def)
  have u: "?line = [] @ ''TRANSCRIPT_USER:'' @ '' hello'' \<and>
      \<not> py_in ''TRANSCRIPT_USER:'' ([] @ ''TRANSCRIPT_USER'')"
    by (simp add: py_in_def)
  note c = C2_reader_classifies_by_contained_marker[of ?raw ?s ?line "[]" "'' hello''"]
  have p: "line_parser ?line = Some (transcript_event ''user'' ''hello'')"
    using c[THEN conjunct2, THEN conjunct2, THEN conjunct1, THEN mp, OF u]
    unfolding st by simp
  from c[THEN conjunct2, THEN conjunct1, THEN mp, OF r]
  obtain s' where s': "reader_body ?raw ?s = Inr s'"
      "log_buffer s' = last_n 500 (log_buffer ?s @ [?line])"
      "log_queues s' = fan_out (loop ?s) (log_subscribers ?s) (Some ?line) (log_queues ?s)"
      "tx_buffer s' = tx_buffer ?s @ filter is_transcript (events_of [?line])"
      "tx_queues s' =
           (case line_parser ?line of
              None \<Rightarrow> tx_queues ?s
            | Some ev \<Rightarrow> fan_out (loop ?s) (tx_subscribers ?s) ev (tx_queues ?s))"
    by blast
  have f: "loop ?s = Some Loop_Open" "log_subscribers ?s = [0]" "tx_subscribers ?s = [1]"
    "log_buffer ?s = []" "tx_buffer ?s = []"
    "log_queues ?s 0 = new_queue 500" "tx_queues ?s 1 = new_queue 200"
    by (simp_all add: stream_events_def stream_logs_def lifespan_def initial_def Let_def)
  have 1: "log_buffer s' = [?line]"
    unfolding s'(2) f by (simp add: last_n_def)
  have 2: "items (log_queues s' 0) = [Some ?line]"
    unfolding s'(3) f by (simp add: fan_out_at f new_queue_def full_def)
  have 3: "tx_buffer s' = [transcript_event ''user'' ''hello'']"
    unfolding s'(4) f events_of_single p by simp
  have f1: "tx_queues ?s (Suc 0) = new_queue 200" using f(7) by simp
  have 4: "items (tx_queues s' 1) = [transcript_event ''user'' ''hello'']"
    unfolding s'(5) f p by (simp add: fan_out_at f f1 new_queue_def full_def)
  from s'(1) 1 2 3 4 have A: "\<exists>s'. reader_body ?raw ?s = Inr s' \<and>
      log_buffer s' = [?line] \<and> items (log_queues s' 0) = [Some ?line] \<and>
      tx_buffer s' = [transcript_event ''user'' ''hello''] \<and>
      items (tx_queues s' 1) = [transcript_event ''user'' ''hello'']" by blast
  have a: "''TRANSCRIPT_AGENT: hi there'' = [] @ ''TRANSCRIPT_AGENT:'' @ '' hi there'' \<and>
      \<not> py_in ''TRANSCRIPT_USER:'' ''TRANSCRIPT_AGENT: hi there'' \<and>
      \<not> py_in ''TRANSCRIPT_AGENT:'' ([] @ ''TRANSCRIPT_AGENT'')"
    by (simp add: py_in_def)
  have B: "line_parser ''TRANSCRIPT_AGENT: hi there'' = Some (transcript_event ''agent'' ''hi there'')"
    using C2_reader_classifies_by_contained_marker[of ?raw ?s "''TRANSCRIPT_AGENT: hi there''"
      "[]" "'' hi there''", THEN conjunct2, THEN conjunct2, THEN conjunct2, THEN conjunct1,
      THEN mp, OF a]
    unfolding st by simp
  have b: "''INFO AGENT_STATE: listening'' = ''INFO '' @ ''AGENT_STATE:'' @ '' listening'' \<and>
      \<not> py_in ''TRANSCRIPT_USER:'' ''INFO AGENT_STATE: listening'' \<and>
      \<not> py_in ''TRANSCRIPT_AGENT:'' ''INFO AGENT_STATE: listening'' \<and>
      \<not> py_in ''AGENT_STATE:'' (''INFO '' @ ''AGENT_STATE'')"
    by (simp add: py_in_def)
  have C: "line_parser ''INFO AGENT_STATE: listening'' = Some (state_event ''listening'')"
    using C2_reader_classifies_by_contained_marker[of ?raw ?s "''INFO AGENT_STATE: listening''"
      "''INFO ''" "'' listening''", THEN conjunct2, THEN conjunct2, THEN conjunct2,
      THEN conjunct2, THEN conjunct1, THEN mp, OF b]
    unfolding st .
  have d: "\<not> py_in ''TRANSCRIPT_USER:'' ''Connecting to room'' \<and>
      \<not> py_in ''TRANSCRIPT_AGENT:'' ''Connecting to room'' \<and>
      \<not> py_in ''AGENT_STATE:'' ''Connecting to room''"
    by (simp add: py_in_def)
  have D: "line_parser ''Connecting to room'' = None"
    using C2_reader_classifies_by_contained_marker[of ?raw ?s "''Connecting to room''" "[]" "[]",
      THEN conjunct2, THEN conjunct2, THEN conjunct2, THEN conjunct2, THEN conjunct2,
      THEN mp, OF d] .
  from A B C D show ?thesis by (intro conjI)
qed

text \<open>
  The statement of the specification fails on a line where a marker stands after other text: the line
  starts with none of the markers, and a user transcript event is produced. It fails on a
  line that starts with the agent marker and holds the user marker further on: the event
  is a user transcript, not an agent transcript.
\<close>

theorem C2_counterexample:
  "\<not> startswith ''INFO TRANSCRIPT_USER: hi'' ''TRANSCRIPT_USER:'' \<and>
   \<not> startswith ''INFO TRANSCRIPT_USER: hi'' ''TRANSCRIPT_AGENT:'' \<and>
   \<not> startswith ''INFO TRANSCRIPT_USER: hi'' ''AGENT_STATE:'' \<and>
   (\<exists>s'. reader_body ''INFO TRANSCRIPT_USER: hi'' (lifespan initial) = Inr s' \<and>
         tx_buffer s' = [transcript_event ''user'' ''hi'']) \<and>
   startswith ''TRANSCRIPT_AGENT: say TRANSCRIPT_USER: x'' ''TRANSCRIPT_AGENT:'' \<and>
   (\<exists>s'. reader_body ''TRANSCRIPT_AGENT: say TRANSCRIPT_USER: x'' (lifespan initial) = Inr s' \<and>
         tx_buffer s' = [transcript_event ''user'' ''x''])"
proof -
  have r1: "rstrip ''INFO TRANSCRIPT_USER: hi'' = ''INFO TRANSCRIPT_USER: hi''"
    and r2: "rstrip ''TRANSCRIPT_AGENT: say TRANSCRIPT_USER: x'' =
      ''TRANSCRIPT_AGENT: say TRANSCRIPT_USER: x''"
    by (simp_all add: rstrip_def isspace_def whitespace_def)
  have p1: "line_parser ''INFO TRANSCRIPT_USER: hi'' = Some (transcript_event ''user'' ''hi'')"
    and p2: "line_parser ''TRANSCRIPT_AGENT: say TRANSCRIPT_USER: x'' =
      Some (transcript_event ''user'' ''x'')"
    by (simp_all add: string_eval)
  have "reader_body ''INFO TRANSCRIPT_USER: hi'' (lifespan initial) =
      Inr (publish ''INFO TRANSCRIPT_USER: hi'' (lifespan initial))"
    using reader_body_publish[of "''INFO TRANSCRIPT_USER: hi''" "lifespan initial"]
    unfolding r1 by simp
  moreover have "tx_buffer (publish ''INFO TRANSCRIPT_USER: hi'' (lifespan initial)) =
      [transcript_event ''user'' ''hi'']"
    by (simp add: tx_buffer_publish events_of_single p1 lifespan_def initial_def)
  ultimately have A: "\<exists>s'. reader_body ''INFO TRANSCRIPT_USER: hi'' (lifespan initial) = Inr s' \<and>
         tx_buffer s' = [transcript_event ''user'' ''hi'']" by simp
  have "reader_body ''TRANSCRIPT_AGENT: say TRANSCRIPT_USER: x'' (lifespan initial) =
      Inr (publish ''TRANSCRIPT_AGENT: say TRANSCRIPT_USER: x'' (lifespan initial))"
    using reader_body_publish[of "''TRANSCRIPT_AGENT: say TRANSCRIPT_USER: x''" "lifespan initial"]
    unfolding r2 by simp
  moreover have "tx_buffer (publish ''TRANSCRIPT_AGENT: say TRANSCRIPT_USER: x'' (lifespan initial)) =
      [transcript_event ''user'' ''x'']"
    by (simp add: tx_buffer_publish events_of_single p2 lifespan_def initial_def)
  ultimately have B: "\<exists>s'. reader_body ''TRANSCRIPT_AGENT: say TRANSCRIPT_USER: x'' (lifespan initial) = Inr s' \<and>
         tx_buffer s' = [transcript_event ''user'' ''x'']" by simp
  from A B show ?thesis by simp
qed

section \<open>The end of the worker's output\<close>

lemma invariant_fold_publish: "invariant s \<Longrightarrow> invariant (fold publish ls s)"
  by (induction ls arbitrary: s) (simp_all add: invariant_publish)




lemma length_upto_stopped: "length (upto_stopped evs) \<le> length evs"
  by (induction evs) auto









section \<open>Backlog first, live items after\<close>

lemma logs_read_partial:
  assumes "at g = In_Backlog rest" and "items (log_queues s (queue_ref g)) = []"
  shows "logs_read j g s =
     (map SseData (take j rest),
      g\<lparr>at := (if j \<le> length rest then In_Backlog (drop j rest) else Waiting)\<rparr>, s)"
  using assms
proof (induction j arbitrary: g rest)
  case 0
  then show ?case by simp
next
  case (Suc j)
  show ?case
  proof (cases rest)
    case Nil
    with Suc.prems have "logs_next g s = (Pending, g\<lparr>at := Waiting\<rparr>, s)"
      by (simp add: logs_next_def logs_get_def)
    with Nil show ?thesis by simp
  next
    case (Cons x xs)
    let ?g1 = "g\<lparr>at := In_Backlog xs\<rparr>"
    from Cons Suc.prems have nx: "logs_next g s = (Yield (SseData x), ?g1, s)"
      by (simp add: logs_next_def)
    have "logs_read j ?g1 s =
       (map SseData (take j xs),
        ?g1\<lparr>at := (if j \<le> length xs then In_Backlog (drop j xs) else Waiting)\<rparr>, s)"
      using Suc.prems by (intro Suc.IH) simp_all
    with nx Cons show ?thesis by simp
  qed
qed

lemma events_read_partial:
  assumes "at g = In_Backlog rest" and "items (tx_queues s (queue_ref g)) = []"
  shows "events_read j g s =
     (map SseJson (take j rest),
      g\<lparr>at := (if j \<le> length rest then In_Backlog (drop j rest) else Waiting)\<rparr>, s)"
  using assms
proof (induction j arbitrary: g rest)
  case 0
  then show ?case by simp
next
  case (Suc j)
  show ?case
  proof (cases rest)
    case Nil
    with Suc.prems have "events_next g s = (Pending, g\<lparr>at := Waiting\<rparr>, s)"
      by (simp add: events_next_def events_get_def)
    with Nil show ?thesis by simp
  next
    case (Cons x xs)
    let ?g1 = "g\<lparr>at := In_Backlog xs\<rparr>"
    from Cons Suc.prems have nx: "events_next g s = (Yield (SseJson x), ?g1, s)"
      by (simp add: events_next_def)
    have "events_read j ?g1 s =
       (map SseJson (take j xs),
        ?g1\<lparr>at := (if j \<le> length xs then In_Backlog (drop j xs) else Waiting)\<rparr>, s)"
      using Suc.prems by (intro Suc.IH) simp_all
    with nx Cons show ?thesis by simp
  qed
qed

lemma logs_read_first:
  assumes "at g = Not_Started" and "items (log_queues s (queue_ref g)) = []" and "0 < j"
  shows "logs_read j g s =
     (map SseData (take j (log_buffer s)),
      g\<lparr>at := (if j \<le> length (log_buffer s) then In_Backlog (drop j (log_buffer s))
                else Waiting)\<rparr>, s)"
proof -
  from assms(3) obtain k where j: "j = Suc k" by (cases j) auto
  let ?g = "g\<lparr>at := In_Backlog (log_buffer s)\<rparr>"
  have "logs_read j g s = logs_read j ?g s"
    using assms(1) unfolding j by (rule logs_read_not_started)
  also have "\<dots> = (map SseData (take j (log_buffer s)),
      ?g\<lparr>at := (if j \<le> length (log_buffer s) then In_Backlog (drop j (log_buffer s))
                else Waiting)\<rparr>, s)"
    using assms(2) by (intro logs_read_partial) simp_all
  finally show ?thesis by simp
qed

lemma events_read_first:
  assumes "at g = Not_Started" and "items (tx_queues s (queue_ref g)) = []" and "0 < j"
  shows "events_read j g s =
     (map SseJson (take j (tx_buffer s)),
      g\<lparr>at := (if j \<le> length (tx_buffer s) then In_Backlog (drop j (tx_buffer s))
                else Waiting)\<rparr>, s)"
proof -
  from assms(3) obtain k where j: "j = Suc k" by (cases j) auto
  let ?g = "g\<lparr>at := In_Backlog (tx_buffer s)\<rparr>"
  have "events_read j g s = events_read j ?g s"
    using assms(1) unfolding j by (rule events_read_not_started)
  also have "\<dots> = (map SseJson (take j (tx_buffer s)),
      ?g\<lparr>at := (if j \<le> length (tx_buffer s) then In_Backlog (drop j (tx_buffer s))
                else Waiting)\<rparr>, s)"
    using assms(2) by (intro events_read_partial) simp_all
  finally show ?thesis by simp
qed

lemma logs_backlog_then_live:
  assumes inv: "invariant s" and lp: "loop s = Some Loop_Open"
    and sub: "stream_logs s = (g, s1)" and j: "0 < j"
    and r1: "logs_read j g s1 = (fs1, g1, s1')"
    and live: "reader_loop live s1' = Inr s2"
    and room: "length (lines_read live) \<le> 500"
    and n: "length (log_buffer s) + length (lines_read live) < n"
    and r2: "logs_read n g1 s2 = (fs2, g2, s2')"
  shows "fs1 = map SseData (take j (log_buffer s)) \<and>
         fs1 @ fs2 = map SseData (log_buffer s @ lines_read live)"
proof -
  let ?B = "log_buffer s" and ?L = "lines_read live" and ?q = "next_ref s"
  note f = stream_logs_fresh[OF sub]
  from f have q: "queue_ref g = ?q" and ns: "at g = Not_Started"
    and e: "items (log_queues s1 (queue_ref g)) = []" and b1: "log_buffer s1 = ?B"
    by (auto simp: new_queue_def)
  from logs_read_first[OF ns e j] r1 b1
  have fs1: "fs1 = map SseData (take j ?B)"
    and g1: "g1 = g\<lparr>at := (if j \<le> length ?B then In_Backlog (drop j ?B) else Waiting)\<rparr>"
    and s1': "s1' = s1" by simp_all
  from live s1' have s2: "s2 = fold publish ?L s1"
    by (simp add: reader_loop_publish)
  from inv have fresh: "?q \<notin> set (log_subscribers s)" and d: "distinct (log_subscribers s)"
    by (auto simp: invariant_def)
  from f fresh d have d1: "distinct (log_subscribers s1)" and m1: "?q \<in> set (log_subscribers s1)"
    by auto
  from f lp have l1: "loop s1 = Some Loop_Open" by simp
  from f have mx: "log_queues s1 ?q = new_queue 500" by auto
  have "log_queues (fold publish ?L s1) ?q =
      (log_queues s1 ?q)\<lparr>items := items (log_queues s1 ?q) @ map Some ?L\<rparr>"
    using room by (intro log_queue_fold_publish[OF l1 d1 m1]) (simp add: mx new_queue_def)
  then have its: "items (log_queues s2 (queue_ref g1)) = map Some ?L"
    using s2 g1 q mx by (simp add: new_queue_def)
  have nn: "None \<notin> set (map Some ?L)" by auto
  show ?thesis
  proof (cases "j \<le> length ?B")
    case True
    with g1 have at1: "at g1 = In_Backlog (drop j ?B)" by simp
    have "length (drop j ?B) + length (log_frames (map Some ?L)) < n"
      using n by simp
    from logs_read_backlog[OF at1 its this] r2 nn
    have "fs2 = map SseData (drop j ?B) @ map SseData ?L" by auto
    moreover have "map SseData (take j ?B) @ map SseData (drop j ?B) = map SseData ?B"
      by (metis append_take_drop_id map_append)
    ultimately show ?thesis using fs1 by simp
  next
    case False
    with g1 have at1: "at g1 = In_Try \<or> at g1 = Waiting \<or> at g1 = In_Backlog []" by simp
    have "length (log_frames (map Some ?L)) < n" using n by simp
    from logs_read_queue[OF at1 its this] r2 nn
    have "fs2 = map SseData ?L" by auto
    with fs1 False show ?thesis by simp
  qed
qed

lemma events_backlog_then_live:
  assumes inv: "invariant s" and lp: "loop s = Some Loop_Open"
    and sub: "stream_events s = (g, s1)" and j: "0 < j"
    and r1: "events_read j g s1 = (fs1, g1, s1')"
    and live: "reader_loop live s1' = Inr s2"
    and room: "length (events_of (lines_read live)) \<le> 200"
    and n: "length (tx_buffer s) + length (events_of (lines_read live)) < n"
    and r2: "events_read n g1 s2 = (fs2, g2, s2')"
  shows "fs1 = map SseJson (take j (tx_buffer s)) \<and>
         fs1 @ fs2 = map SseJson (tx_buffer s @ upto_stopped (events_of (lines_read live)))"
proof -
  let ?B = "tx_buffer s" and ?L = "lines_read live" and ?q = "next_ref s"
  let ?E = "events_of (lines_read live)"
  note f = stream_events_fresh[OF sub]
  from f have q: "queue_ref g = ?q" and ns: "at g = Not_Started"
    and e: "items (tx_queues s1 (queue_ref g)) = []" and b1: "tx_buffer s1 = ?B"
    by (auto simp: new_queue_def)
  from events_read_first[OF ns e j] r1 b1
  have fs1: "fs1 = map SseJson (take j ?B)"
    and g1: "g1 = g\<lparr>at := (if j \<le> length ?B then In_Backlog (drop j ?B) else Waiting)\<rparr>"
    and s1': "s1' = s1" by simp_all
  from live s1' have s2: "s2 = fold publish ?L s1"
    by (simp add: reader_loop_publish)
  from inv have fresh: "?q \<notin> set (tx_subscribers s)" and d: "distinct (tx_subscribers s)"
    by (auto simp: invariant_def)
  from f fresh d have d1: "distinct (tx_subscribers s1)" and m1: "?q \<in> set (tx_subscribers s1)"
    by auto
  from f lp have l1: "loop s1 = Some Loop_Open" by simp
  from f have mx: "tx_queues s1 ?q = new_queue 200" by auto
  have "tx_queues (fold publish ?L s1) ?q =
      (tx_queues s1 ?q)\<lparr>items := items (tx_queues s1 ?q) @ ?E\<rparr>"
    using room by (intro tx_queue_fold_publish[OF l1 d1 m1]) (simp add: mx new_queue_def)
  then have its: "items (tx_queues s2 (queue_ref g1)) = ?E"
    using s2 g1 q mx by (simp add: new_queue_def)
  note le = length_upto_stopped[of ?E]
  show ?thesis
  proof (cases "j \<le> length ?B")
    case True
    with g1 have at1: "at g1 = In_Backlog (drop j ?B)" by simp
    have "length (drop j ?B) + length (upto_stopped ?E) < n"
      using n le by simp
    from events_read_backlog[OF at1 its this] r2
    have "fs2 = map SseJson (drop j ?B @ upto_stopped ?E)" by auto
    moreover have "map SseJson (take j ?B) @ map SseJson (drop j ?B) = map SseJson ?B"
      by (metis append_take_drop_id map_append)
    ultimately show ?thesis using fs1 by simp
  next
    case False
    with g1 have at1: "at g1 = In_Try \<or> at g1 = Waiting \<or> at g1 = In_Backlog []" by simp
    have "length (upto_stopped ?E) < n" using n le by simp
    from events_read_queue[OF at1 its this] r2
    have "fs2 = map SseJson (upto_stopped ?E)" by auto
    with fs1 False show ?thesis by simp
  qed
qed

text \<open>
  C3, as amended. Let the reader have published the lines of \<open>past\<close> since the histories
  were last emptied. The log history is then the last \<open>min K 500\<close> of these \<open>K\<close> lines. The
  events history holds transcript events only, no state event; while the lines have
  produced no more than 200 transcript events it holds exactly these. A client that opens a stream and reads \<open>j\<close> frames, at least one, before anything
  more is published gets the first \<open>j\<close> entries of the history, oldest first. If the reader
  then publishes the lines of \<open>live\<close>, no more of them than the queue of the stream can
  hold (500 lines, or 200 events), and the event loop is open, then what the client has
  read and what it reads next are together the history followed by the new items, each
  once and in the order of publication; the events stream stops after the first stopped
  state event among them.
\<close>

theorem C3_backlog_then_live:
  assumes "invariant s0" and "loop s0 = Some Loop_Open"
    and "log_buffer s0 = []" and "tx_buffer s0 = []"
    and "reader_loop past s0 = Inr s"
  shows
   "(log_buffer s = last_n 500 (lines_read past) \<and>
     length (log_buffer s) = min (length (lines_read past)) 500 \<and>
     (\<forall>ev\<in>set (tx_buffer s). is_transcript ev) \<and>
     (length (filter is_transcript (events_of (lines_read past))) \<le> 200 \<longrightarrow>
        tx_buffer s = last_n 200 (filter is_transcript (events_of (lines_read past))))) \<and>
    (stream_logs s = (g, s1) \<and> 0 < j \<and> logs_read j g s1 = (fs1, g1, s1') \<and>
       reader_loop live s1' = Inr s2 \<and> length (lines_read live) \<le> 500 \<and>
       length (log_buffer s) + length (lines_read live) < n \<and>
       logs_read n g1 s2 = (fs2, g2, s2') \<longrightarrow>
       fs1 = map SseData (take j (log_buffer s)) \<and>
       fs1 @ fs2 = map SseData (log_buffer s @ lines_read live)) \<and>
    (stream_events s = (h, t1) \<and> 0 < k \<and> events_read k h t1 = (es1, h1, t1') \<and>
       reader_loop live t1' = Inr t2 \<and> length (events_of (lines_read live)) \<le> 200 \<and>
       length (tx_buffer s) + length (events_of (lines_read live)) < m \<and>
       events_read m h1 t2 = (es2, h2, t2') \<longrightarrow>
       es1 = map SseJson (take k (tx_buffer s)) \<and>
       es1 @ es2 = map SseJson (tx_buffer s @ upto_stopped (events_of (lines_read live))))"
proof -
  from assms(5) have s: "s = fold publish (lines_read past) s0"
    by (simp add: reader_loop_publish)
  from assms(1) have inv: "invariant s" unfolding s by (rule invariant_fold_publish)
  from assms(2) have lp: "loop s = Some Loop_Open" unfolding s by simp
  have "length (log_buffer s0) \<le> 500" using assms(3) by simp
  then have lb: "log_buffer s = last_n 500 (lines_read past)"
    unfolding s using assms(3) by (simp add: log_buffer_fold_publish)
  have len: "length (log_buffer s) = min (length (lines_read past)) 500"
    unfolding lb by (simp add: length_last_n min.commute)
  have tb: "tx_buffer s = filter is_transcript (events_of (lines_read past))"
    unfolding s using assms(4) by (simp add: tx_buffer_fold_publish)
  have tr: "\<forall>ev\<in>set (tx_buffer s). is_transcript ev"
    unfolding tb by simp
  have tl: "length (filter is_transcript (events_of (lines_read past))) \<le> 200 \<longrightarrow>
        tx_buffer s = last_n 200 (filter is_transcript (events_of (lines_read past)))"
    unfolding tb by (simp add: last_n_short)
  have L: "stream_logs s = (g, s1) \<and> 0 < j \<and> logs_read j g s1 = (fs1, g1, s1') \<and>
       reader_loop live s1' = Inr s2 \<and> length (lines_read live) \<le> 500 \<and>
       length (log_buffer s) + length (lines_read live) < n \<and>
       logs_read n g1 s2 = (fs2, g2, s2') \<longrightarrow>
       fs1 = map SseData (take j (log_buffer s)) \<and>
       fs1 @ fs2 = map SseData (log_buffer s @ lines_read live)"
    using logs_backlog_then_live[OF inv lp, of g s1 j fs1 g1 s1' live s2 n fs2 g2 s2']
    by blast
  have E: "stream_events s = (h, t1) \<and> 0 < k \<and> events_read k h t1 = (es1, h1, t1') \<and>
       reader_loop live t1' = Inr t2 \<and> length (events_of (lines_read live)) \<le> 200 \<and>
       length (tx_buffer s) + length (events_of (lines_read live)) < m \<and>
       events_read m h1 t2 = (es2, h2, t2') \<longrightarrow>
       es1 = map SseJson (take k (tx_buffer s)) \<and>
       es1 @ es2 = map SseJson (tx_buffer s @ upto_stopped (events_of (lines_read live)))"
    using events_backlog_then_live[OF inv lp, of h t1 k es1 h1 t1' live t2 m es2 h2 t2']
    by blast
  from lb len tr tl L E show ?thesis by (intro conjI)
qed

text \<open>
  The statement of the specification fails on the events channel: after one state event has been
  published, a new subscriber gets no backlog at all (its first read finds nothing to
  replay and waits), where \<open>min K C\<close> is 1.
\<close>

theorem C3_counterexample:
  "reader_loop [''AGENT_STATE: active'' @ [CHR 0x0A]] (lifespan initial) =
     Inr (publish ''AGENT_STATE: active'' (lifespan initial)) \<and>
   events_of [''AGENT_STATE: active''] = [state_event ''active''] \<and>
   tx_buffer (publish ''AGENT_STATE: active'' (lifespan initial)) = [] \<and>
   events_next (fst (stream_events (publish ''AGENT_STATE: active'' (lifespan initial))))
       (snd (stream_events (publish ''AGENT_STATE: active'' (lifespan initial)))) =
     (Pending,
      (fst (stream_events (publish ''AGENT_STATE: active'' (lifespan initial))))\<lparr>at := Waiting\<rparr>,
      snd (stream_events (publish ''AGENT_STATE: active'' (lifespan initial))))"
proof -
  let ?s = "publish ''AGENT_STATE: active'' (lifespan initial)"
  have r: "rstrip (''AGENT_STATE: active'' @ [CHR 0x0A]) = ''AGENT_STATE: active''"
    by (simp add: rstrip_def isspace_def whitespace_def)
  have "lines_read [''AGENT_STATE: active'' @ [CHR 0x0A]] = [''AGENT_STATE: active'']"
    unfolding lines_read.simps r by simp
  then have A: "reader_loop [''AGENT_STATE: active'' @ [CHR 0x0A]] (lifespan initial) = Inr ?s"
    unfolding reader_loop_publish by simp
  have p: "line_parser ''AGENT_STATE: active'' = Some (state_event ''active'')"
    by (simp add: string_eval)
  have B: "events_of [''AGENT_STATE: active''] = [state_event ''active'']"
    by (simp add: events_of_single p)
  have C: "tx_buffer ?s = []"
    by (simp add: tx_buffer_publish B lifespan_def initial_def)
  obtain h s1 where hs: "stream_events ?s = (h, s1)" by (cases "stream_events ?s")
  note f = stream_events_fresh[OF hs]
  from f C have "events_next h s1 = (Pending, h\<lparr>at := Waiting\<rparr>, s1)"
    by (auto simp: events_next_def events_get_def new_queue_def)
  then have D: "events_next (fst (stream_events ?s)) (snd (stream_events ?s)) =
     (Pending, (fst (stream_events ?s))\<lparr>at := Waiting\<rparr>, snd (stream_events ?s))"
    unfolding hs by simp
  from A B C D show ?thesis by (intro conjI)
qed

theorem C3_backlog_then_live_witness:
  "invariant (lifespan initial) \<and>
   reader_loop [''one'' @ [CHR 0x0A], ''TRANSCRIPT_USER: hi'' @ [CHR 0x0A]] (lifespan initial) =
     Inr (fold publish [''one'', ''TRANSCRIPT_USER: hi''] (lifespan initial)) \<and>
   log_buffer (fold publish [''one'', ''TRANSCRIPT_USER: hi''] (lifespan initial)) =
     [''one'', ''TRANSCRIPT_USER: hi''] \<and>
   tx_buffer (fold publish [''one'', ''TRANSCRIPT_USER: hi''] (lifespan initial)) =
     [transcript_event ''user'' ''hi''] \<and>
   fst (logs_read 1
         (fst (stream_logs (fold publish [''one'', ''TRANSCRIPT_USER: hi''] (lifespan initial))))
         (snd (stream_logs (fold publish [''one'', ''TRANSCRIPT_USER: hi''] (lifespan initial)))))
     = [SseData ''one''] \<and>
   fst (logs_read 1
         (fst (stream_logs (fold publish [''one'', ''TRANSCRIPT_USER: hi''] (lifespan initial))))
         (snd (stream_logs (fold publish [''one'', ''TRANSCRIPT_USER: hi''] (lifespan initial))))) @
   fst (logs_read 5
         (fst (snd (logs_read 1
            (fst (stream_logs (fold publish [''one'', ''TRANSCRIPT_USER: hi''] (lifespan initial))))
            (snd (stream_logs (fold publish [''one'', ''TRANSCRIPT_USER: hi''] (lifespan initial)))))))
         (fold publish [''two'', ''AGENT_STATE: x'']
            (snd (snd (logs_read 1
               (fst (stream_logs (fold publish [''one'', ''TRANSCRIPT_USER: hi''] (lifespan initial))))
               (snd (stream_logs (fold publish [''one'', ''TRANSCRIPT_USER: hi''] (lifespan initial)))))))))
     = [SseData ''one'', SseData ''TRANSCRIPT_USER: hi'', SseData ''two'', SseData ''AGENT_STATE: x''] \<and>
   fst (events_read 1
         (fst (stream_events (fold publish [''one'', ''TRANSCRIPT_USER: hi''] (lifespan initial))))
         (snd (stream_events (fold publish [''one'', ''TRANSCRIPT_USER: hi''] (lifespan initial)))))
     = [SseJson (transcript_event ''user'' ''hi'')] \<and>
   fst (events_read 1
         (fst (stream_events (fold publish [''one'', ''TRANSCRIPT_USER: hi''] (lifespan initial))))
         (snd (stream_events (fold publish [''one'', ''TRANSCRIPT_USER: hi''] (lifespan initial))))) @
   fst (events_read 5
         (fst (snd (events_read 1
            (fst (stream_events (fold publish [''one'', ''TRANSCRIPT_USER: hi''] (lifespan initial))))
            (snd (stream_events (fold publish [''one'', ''TRANSCRIPT_USER: hi''] (lifespan initial)))))))
         (fold publish [''two'', ''AGENT_STATE: x'']
            (snd (snd (events_read 1
               (fst (stream_events (fold publish [''one'', ''TRANSCRIPT_USER: hi''] (lifespan initial))))
               (snd (stream_events (fold publish [''one'', ''TRANSCRIPT_USER: hi''] (lifespan initial)))))))))
     = [SseJson (transcript_event ''user'' ''hi''), SseJson (state_event ''x'')]"
proof -
  let ?i = "lifespan initial"
  let ?past = "[''one'' @ [CHR 0x0A], ''TRANSCRIPT_USER: hi'' @ [CHR 0x0A]]"
  let ?live = "[''two'' @ [CHR 0x0A], ''AGENT_STATE: x'' @ [CHR 0x0A]]"
  let ?pl = "[''one'', ''TRANSCRIPT_USER: hi'']"
  let ?ll = "[''two'', ''AGENT_STATE: x'']"
  let ?S = "fold publish ?pl ?i"
  let ?R1 = "logs_read 1 (fst (stream_logs ?S)) (snd (stream_logs ?S))"
  let ?S2 = "fold publish ?ll (snd (snd ?R1))"
  let ?R2 = "logs_read 5 (fst (snd ?R1)) ?S2"
  let ?Q1 = "events_read 1 (fst (stream_events ?S)) (snd (stream_events ?S))"
  let ?T2 = "fold publish ?ll (snd (snd ?Q1))"
  let ?Q2 = "events_read 5 (fst (snd ?Q1)) ?T2"
  have inv: "invariant ?i" by (intro invariant_lifespan invariant_initial)
  have i: "loop ?i = Some Loop_Open" "log_buffer ?i = []" "tx_buffer ?i = []"
    by (simp_all add: lifespan_def initial_def)
  have lp: "lines_read ?past = ?pl" and ll: "lines_read ?live = ?ll"
    by (simp_all add: rstrip_def isspace_def whitespace_def)
  have past: "reader_loop ?past ?i = Inr ?S"
    unfolding reader_loop_publish lp ..
  have e1: "events_of ?pl = [transcript_event ''user'' ''hi'']"
    and e2: "events_of ?ll = [state_event ''x'']"
    by (simp_all add: events_of_def List.map_filter_def string_eval)
  note c = C3_backlog_then_live[OF inv i past,
      of "fst (stream_logs ?S)" "snd (stream_logs ?S)" 1 "fst ?R1" "fst (snd ?R1)" "snd (snd ?R1)"
         ?live ?S2 5 "fst ?R2" "fst (snd ?R2)" "snd (snd ?R2)"
         "fst (stream_events ?S)" "snd (stream_events ?S)" 1 "fst ?Q1" "fst (snd ?Q1)"
         "snd (snd ?Q1)" ?T2 5 "fst ?Q2" "fst (snd ?Q2)" "snd (snd ?Q2)"]
  have lb: "log_buffer ?S = ?pl"
    using c[THEN conjunct1, THEN conjunct1] unfolding lp by (simp add: last_n_def)
  have "length (filter is_transcript (events_of (lines_read ?past))) \<le> 200"
    unfolding lp e1 by simp
  from c[THEN conjunct1, THEN conjunct2, THEN conjunct2, THEN conjunct2, THEN mp, OF this]
  have tb: "tx_buffer ?S = [transcript_event ''user'' ''hi'']"
    unfolding lp e1 by (simp add: last_n_def)
  have hl: "stream_logs ?S = (fst (stream_logs ?S), snd (stream_logs ?S)) \<and> 0 < (1::nat) \<and>
      ?R1 = (fst ?R1, fst (snd ?R1), snd (snd ?R1)) \<and>
      reader_loop ?live (snd (snd ?R1)) = Inr ?S2 \<and> length (lines_read ?live) \<le> 500 \<and>
      length (log_buffer ?S) + length (lines_read ?live) < 5 \<and>
      ?R2 = (fst ?R2, fst (snd ?R2), snd (snd ?R2))"
    unfolding reader_loop_publish ll lb by simp
  have he: "stream_events ?S = (fst (stream_events ?S), snd (stream_events ?S)) \<and> 0 < (1::nat) \<and>
      ?Q1 = (fst ?Q1, fst (snd ?Q1), snd (snd ?Q1)) \<and>
      reader_loop ?live (snd (snd ?Q1)) = Inr ?T2 \<and>
      length (events_of (lines_read ?live)) \<le> 200 \<and>
      length (tx_buffer ?S) + length (events_of (lines_read ?live)) < 5 \<and>
      ?Q2 = (fst ?Q2, fst (snd ?Q2), snd (snd ?Q2))"
    unfolding reader_loop_publish ll tb e2 by simp
  have m: "map SseData (take 1 ?pl) = [SseData ''one'']"
    "map SseData (?pl @ ?ll) =
       [SseData ''one'', SseData ''TRANSCRIPT_USER: hi'', SseData ''two'', SseData ''AGENT_STATE: x'']"
    "map SseJson (take 1 [transcript_event ''user'' ''hi'']) = [SseJson (transcript_event ''user'' ''hi'')]"
    "map SseJson ([transcript_event ''user'' ''hi''] @ upto_stopped [state_event ''x'']) =
       [SseJson (transcript_event ''user'' ''hi''), SseJson (state_event ''x'')]"
    by simp_all
  note cl = c[THEN conjunct2, THEN conjunct1, THEN mp, OF hl, unfolded lb ll m]
  note ce = c[THEN conjunct2, THEN conjunct2, THEN mp, OF he, unfolded tb ll e2 m]
  have L: "fst ?R1 = [SseData ''one'']"
    "fst ?R1 @ fst ?R2 =
       [SseData ''one'', SseData ''TRANSCRIPT_USER: hi'', SseData ''two'', SseData ''AGENT_STATE: x'']"
    using cl by (rule conjunct1, rule conjunct2)
  have E: "fst ?Q1 = [SseJson (transcript_event ''user'' ''hi'')]"
    "fst ?Q1 @ fst ?Q2 = [SseJson (transcript_event ''user'' ''hi''), SseJson (state_event ''x'')]"
    using ce by (rule conjunct1, rule conjunct2)
  from inv past lb tb L E show ?thesis by (intro conjI)
qed

section \<open>A line published between the route and the first read\<close>

text \<open>
  The route registers the queue; the generator copies the history when it is first
  resumed. A line the reader publishes in between is in the copy and in the queue, and the
  client gets it twice. The properties of the streams above are therefore stated for a
  stream that has been read at least once before the next line is published.
\<close>

lemma line_between_route_and_first_read_is_delivered_twice:
  "fst (logs_read 3 (fst (stream_logs (lifespan initial)))
          (publish ''hello'' (snd (stream_logs (lifespan initial))))) =
     [SseData ''hello'', SseData ''hello'']"
proof -
  let ?g = "fst (stream_logs (lifespan initial))"
  let ?s = "publish ''hello'' (snd (stream_logs (lifespan initial)))"
  have g: "at ?g = Not_Started" "queue_ref ?g = 0"
    by (simp_all add: stream_logs_def Let_def lifespan_def initial_def)
  have b: "log_buffer ?s = [''hello'']"
    by (simp add: publish_def stream_logs_def Let_def lifespan_def initial_def last_n_def)
  have q: "items (log_queues ?s (queue_ref ?g)) = map Some [''hello'']"
    unfolding g
    by (simp add: publish_def stream_logs_def Let_def lifespan_def initial_def fan_out_at
        new_queue_def full_def)
  have n: "length (log_buffer ?s) + length (log_frames (map Some [''hello''])) < 3"
    unfolding b by simp
  from logs_read_subscription[OF g(1) q n]
  show ?thesis unfolding b by auto
qed

section \<open>The log history is bounded\<close>

text \<open>
  The log history holds at most 500 lines in every reachable state: a line that is not
  blank is appended and the last 500 lines are kept, so that the oldest line goes when
  there are more.
\<close>

theorem log_history_bounded:
  "reachable s \<Longrightarrow>
     length (log_buffer s) \<le> 500 \<and>
     (rstrip raw \<noteq> [] \<longrightarrow>
        (\<exists>s'. reader_body raw s = Inr s' \<and>
           log_buffer s' = last_n 500 (log_buffer s @ [rstrip raw]) \<and>
           length (log_buffer s') = min 500 (Suc (length (log_buffer s)))))"
proof -
  assume "reachable s"
  then have a: "length (log_buffer s) \<le> 500" by (rule reachable_log_buffer_bound)
  have "rstrip raw \<noteq> [] \<longrightarrow>
        (\<exists>s'. reader_body raw s = Inr s' \<and>
           log_buffer s' = last_n 500 (log_buffer s @ [rstrip raw]) \<and>
           length (log_buffer s') = min 500 (Suc (length (log_buffer s))))"
    by (simp add: reader_body_publish log_buffer_publish length_last_n)
  with a show ?thesis ..
qed

theorem log_history_bounded_witness:
  "reachable (lifespan initial) \<and> length (log_buffer (lifespan initial)) \<le> 500 \<and>
   (\<exists>s'. reader_body ''hello'' (lifespan initial) = Inr s' \<and> log_buffer s' = [''hello''])"
proof -
  have r: "reachable (lifespan initial)" by (intro r_lifespan r_initial)
  have n: "rstrip ''hello'' \<noteq> []" and e: "rstrip ''hello'' = ''hello''"
    by (simp_all add: rstrip_def isspace_def whitespace_def)
  have b: "log_buffer (lifespan initial) = []" by (simp add: lifespan_def initial_def)
  note c = log_history_bounded[OF r, of "''hello''"]
  from c[THEN conjunct2, THEN mp, OF n]
  have "\<exists>s'. reader_body ''hello'' (lifespan initial) = Inr s' \<and> log_buffer s' = [''hello'']"
    unfolding e b by (auto simp: last_n_def)
  with r c[THEN conjunct1] show ?thesis by (intro conjI)
qed

end
